theory Spec2Isabelle
  imports Main "HOL-Library.Word"
begin

section \<open>The jsmn tokenizer of FlipWiFi (src/jsmn.h)\<close>

text \<open>
  The embedding follows \<^verbatim>\<open>src/jsmn.h\<close> as the file is compiled with its defaults:
  neither \<^verbatim>\<open>JSMN_STRICT\<close> nor \<^verbatim>\<open>JSMN_PARENT_LINKS\<close> is defined anywhere in the
  repository, so the lenient branches and the backward scans are the code.

  Conventions of the model.
  \<^item> The input \<^verbatim>\<open>js\<close>, \<^verbatim>\<open>len\<close> is the list of the first \<^verbatim>\<open>len\<close> bytes of the buffer; the
    code never reads at or beyond \<^verbatim>\<open>len\<close>.
  \<^item> A byte is a \<^typ>\<open>char\<close>, read as a number by \<^term>\<open>of_char\<close>. The C type \<^verbatim>\<open>char\<close> may
    be signed or unsigned; the two numeric tests of the code (\<^verbatim>\<open>c < 32 || c >= 127\<close> and the
    three hex ranges) give the same answer for both readings of a byte above 127.
  \<^item> The token pool \<^verbatim>\<open>tokens\<close>, \<^verbatim>\<open>num_tokens\<close> is a list option: \<open>None\<close> is the null
    pointer, \<open>Some ts\<close> an array of \<open>length ts\<close> slots with arbitrary initial contents.
  \<^item> \<^verbatim>\<open>pos\<close> and \<^verbatim>\<open>toknext\<close> are natural numbers, the \<^verbatim>\<open>int\<close> fields are integers.
    The model of the tokenizer is the code for buffers shorter than \<open>2^31\<close> bytes, where
    no C integer of the tokenizer wraps around. In \<^verbatim>\<open>get_json_value\<close> the argument
    \<^verbatim>\<open>max_tokens\<close> is a 32-bit word, and the wrap-around of the size of the block and the
    range of \<^verbatim>\<open>int\<close> are written out.
  \<^item> The target is the Flipper Zero (\<^verbatim>\<open>#include <furi.h>\<close>), a 32-bit ARM: \<^verbatim>\<open>int\<close>,
    \<^verbatim>\<open>unsigned int\<close>, \<^verbatim>\<open>uint32_t\<close> and \<^verbatim>\<open>size_t\<close> have 32 bits, and a \<^verbatim>\<open>jsmntok_t\<close>
    (an enumeration and three \<^verbatim>\<open>int\<close> fields) has 16 bytes.
  \<^item> A function that returns an \<^verbatim>\<open>int\<close> status returns \<open>Inl e\<close> for the negative error
    code \<open>e\<close> and \<open>Inr n\<close> for the non-negative value \<open>n\<close>, together with the parser and
    the pool as it leaves them.
\<close>

subsection \<open>Data\<close>

datatype jsmntype_t = JSMN_UNDEFINED | JSMN_OBJECT | JSMN_ARRAY | JSMN_STRING | JSMN_PRIMITIVE

datatype jsmnerr = JSMN_ERROR_NOMEM | JSMN_ERROR_INVAL | JSMN_ERROR_PART

record jsmntok_t =
  tok_type :: jsmntype_t
  tok_start :: int
  tok_end :: int
  tok_size :: int

record jsmn_parser =
  pos :: nat
  toknext :: nat
  toksuper :: int

type_synonym pool = "jsmntok_t list option"

type_synonym 'a outcome = "(jsmnerr + 'a) \<times> jsmn_parser \<times> pool"

definition NUL :: char where
  "NUL = CHR 0x00"

definition quote :: char where
  "quote = CHR 0x22"

definition backslash :: char where
  "backslash = CHR 0x5C"

definition jsmn_init :: jsmn_parser where
  "jsmn_init = \<lparr>pos = 0, toknext = 0, toksuper = -1\<rparr>"

subsection \<open>Token pool\<close>

text \<open>\<^verbatim>\<open>jsmn_alloc_token\<close>: \<open>None\<close> is the null result; otherwise the slot handed out is
  the one at the old \<open>toknext\<close>. The type field of the slot is not written.\<close>

definition jsmn_alloc_token :: "jsmn_parser \<Rightarrow> jsmntok_t list \<Rightarrow> (jsmn_parser \<times> jsmntok_t list) option" where
  "jsmn_alloc_token parser tokens =
     (if toknext parser \<ge> length tokens then None
      else Some (parser\<lparr>toknext := toknext parser + 1\<rparr>,
                 tokens[toknext parser :=
                   (tokens ! toknext parser)\<lparr>tok_start := -1, tok_end := -1, tok_size := 0\<rparr>]))"

definition jsmn_fill_token :: "jsmntok_t \<Rightarrow> jsmntype_t \<Rightarrow> int \<Rightarrow> int \<Rightarrow> jsmntok_t" where
  "jsmn_fill_token token ty s e = token\<lparr>tok_type := ty, tok_start := s, tok_end := e, tok_size := 0\<rparr>"

subsection \<open>Primitive scanner\<close>

definition prim_delim :: "char \<Rightarrow> bool" where
  "prim_delim c \<longleftrightarrow> c = CHR '':'' \<or> c = CHR 0x09 \<or> c = CHR 0x0D \<or> c = CHR 0x0A
      \<or> c = CHR '' '' \<or> c = CHR '','' \<or> c = CHR '']'' \<or> c = CHR ''}''"

text \<open>The \<^verbatim>\<open>for\<close> loop of \<^verbatim>\<open>jsmn_parse_primitive\<close>: \<open>Some p\<close> when control reaches the
  label \<^verbatim>\<open>found\<close> with \<^verbatim>\<open>parser->pos == p\<close>, \<open>None\<close> for the invalid byte.\<close>

function jsmn_parse_primitive_loop :: "string \<Rightarrow> nat \<Rightarrow> nat option" where
  "jsmn_parse_primitive_loop js p =
     (if p < length js \<and> js ! p \<noteq> NUL then
        (if prim_delim (js ! p) then Some p
         else if (of_char (js ! p) :: nat) < 32 \<or> (of_char (js ! p) :: nat) \<ge> 127 then None
         else jsmn_parse_primitive_loop js (p + 1))
      else Some p)"
  by pat_completeness auto
termination
  by (relation "measure (\<lambda>(js, p). length js - p)") auto

declare jsmn_parse_primitive_loop.simps [simp del]

definition jsmn_parse_primitive :: "jsmn_parser \<Rightarrow> string \<Rightarrow> pool \<Rightarrow> unit outcome" where
  "jsmn_parse_primitive parser js tokens =
     (let start = pos parser in
      case jsmn_parse_primitive_loop js start of
        None \<Rightarrow> (Inl JSMN_ERROR_INVAL, parser\<lparr>pos := start\<rparr>, tokens)
      | Some p \<Rightarrow>
          (case tokens of
             None \<Rightarrow> (Inr (), parser\<lparr>pos := p - 1\<rparr>, None)
           | Some ts \<Rightarrow>
               (case jsmn_alloc_token (parser\<lparr>pos := p\<rparr>) ts of
                  None \<Rightarrow> (Inl JSMN_ERROR_NOMEM, parser\<lparr>pos := start\<rparr>, tokens)
                | Some (parser', ts') \<Rightarrow>
                    (Inr (), parser'\<lparr>pos := p - 1\<rparr>,
                     Some (ts'[toknext parser :=
                        jsmn_fill_token (ts' ! toknext parser) JSMN_PRIMITIVE (int start) (int p)])))))"

subsection \<open>String scanner\<close>

definition is_hex :: "char \<Rightarrow> bool" where
  "is_hex c \<longleftrightarrow> (let n = (of_char c :: nat) in
      (48 \<le> n \<and> n \<le> 57) \<or> (65 \<le> n \<and> n \<le> 70) \<or> (97 \<le> n \<and> n \<le> 102))"

definition simple_escape :: "char \<Rightarrow> bool" where
  "simple_escape c \<longleftrightarrow> c = quote \<or> c = CHR ''/'' \<or> c = backslash \<or> c = CHR ''b''
      \<or> c = CHR ''f'' \<or> c = CHR ''r'' \<or> c = CHR ''n'' \<or> c = CHR ''t''"

text \<open>The inner \<^verbatim>\<open>for (i = 0; i < 4 && ...; i++)\<close> loop of the \<^verbatim>\<open>u\<close> case: \<open>Some p\<close> is the
  value of \<^verbatim>\<open>parser->pos\<close> when the loop is left, \<open>None\<close> the return of
  \<^verbatim>\<open>JSMN_ERROR_INVAL\<close>. The first argument is \<open>4 - i\<close>.\<close>

fun jsmn_hex_loop :: "nat \<Rightarrow> string \<Rightarrow> nat \<Rightarrow> nat option" where
  "jsmn_hex_loop 0 js p = Some p"
| "jsmn_hex_loop (Suc k) js p =
     (if p < length js \<and> js ! p \<noteq> NUL then
        (if is_hex (js ! p) then jsmn_hex_loop k js (p + 1) else None)
      else Some p)"

lemma jsmn_hex_loop_ge: "jsmn_hex_loop k js p = Some q \<Longrightarrow> p \<le> q"
  by (induction k arbitrary: p) (auto split: if_splits dest: Suc_leD)

text \<open>The outer \<^verbatim>\<open>for\<close> loop of \<^verbatim>\<open>jsmn_parse_string\<close>, entered with \<^verbatim>\<open>parser->pos == p\<close>:
  \<open>Inr p\<close> when the closing quote is met at \<open>p\<close>, \<open>Inl e\<close> for the error \<open>e\<close>. After the
  \<^verbatim>\<open>u\<close> case the code steps back one byte and the loop increment steps forward again.\<close>

function jsmn_parse_string_loop :: "string \<Rightarrow> nat \<Rightarrow> jsmnerr + nat" where
  "jsmn_parse_string_loop js p =
     (if p < length js \<and> js ! p \<noteq> NUL then
        (if js ! p = quote then Inr p
         else if js ! p = backslash \<and> p + 1 < length js then
           (if simple_escape (js ! (p + 1)) then jsmn_parse_string_loop js (p + 2)
            else if js ! (p + 1) = CHR ''u'' then
              (case jsmn_hex_loop 4 js (p + 2) of
                 None \<Rightarrow> Inl JSMN_ERROR_INVAL
               | Some q \<Rightarrow> jsmn_parse_string_loop js (q - 1 + 1))
            else Inl JSMN_ERROR_INVAL)
         else jsmn_parse_string_loop js (p + 1))
      else Inl JSMN_ERROR_PART)"
  by pat_completeness auto
termination
  by (relation "measure (\<lambda>(js, p). length js - p)")
     (auto dest!: jsmn_hex_loop_ge)

declare jsmn_parse_string_loop.simps [simp del]

definition jsmn_parse_string :: "jsmn_parser \<Rightarrow> string \<Rightarrow> pool \<Rightarrow> unit outcome" where
  "jsmn_parse_string parser js tokens =
     (let start = pos parser in
      case jsmn_parse_string_loop js (start + 1) of
        Inl e \<Rightarrow> (Inl e, parser\<lparr>pos := start\<rparr>, tokens)
      | Inr p \<Rightarrow>
          (case tokens of
             None \<Rightarrow> (Inr (), parser\<lparr>pos := p\<rparr>, None)
           | Some ts \<Rightarrow>
               (case jsmn_alloc_token (parser\<lparr>pos := p\<rparr>) ts of
                  None \<Rightarrow> (Inl JSMN_ERROR_NOMEM, parser\<lparr>pos := start\<rparr>, tokens)
                | Some (parser', ts') \<Rightarrow>
                    (Inr (), parser',
                     Some (ts'[toknext parser :=
                        jsmn_fill_token (ts' ! toknext parser) JSMN_STRING (int start + 1) (int p)])))))"

subsection \<open>Top-level driver\<close>

definition is_open :: "jsmntok_t \<Rightarrow> bool" where
  "is_open t \<longleftrightarrow> tok_start t \<noteq> -1 \<and> tok_end t = -1"

definition is_container :: "jsmntok_t \<Rightarrow> bool" where
  "is_container t \<longleftrightarrow> tok_type t = JSMN_ARRAY \<or> tok_type t = JSMN_OBJECT"

text \<open>The backward scans \<^verbatim>\<open>for (i = n - 1; i >= 0; i--) if (P(tokens[i])) { ...; break; }\<close>:
  the index at which the scan breaks, \<open>None\<close> when it runs down to \<open>-1\<close>.\<close>

fun scan_back :: "(jsmntok_t \<Rightarrow> bool) \<Rightarrow> jsmntok_t list \<Rightarrow> nat \<Rightarrow> nat option" where
  "scan_back P ts 0 = None"
| "scan_back P ts (Suc i) = (if P (ts ! i) then Some i else scan_back P ts i)"

text \<open>One pass through the body of the \<^verbatim>\<open>for\<close> loop of \<^verbatim>\<open>jsmn_parse\<close>: \<open>Break\<close> when the
  \<^verbatim>\<open>switch\<close> is left by \<^verbatim>\<open>break\<close> (with the parser, the pool and \<^verbatim>\<open>count\<close>), \<open>Return\<close>
  when the function returns from inside the loop.\<close>

datatype loop_step = Break jsmn_parser pool int | Return jsmnerr jsmn_parser pool

text \<open>\<^verbatim>\<open>if (parser->toksuper != -1 && tokens != NULL) tokens[parser->toksuper].size++\<close>.
  The index is in range whenever the parser comes from \<open>jsmn_init\<close> (lemma
  \<open>parser_ok_loop\<close> below).\<close>

definition size_incr :: "jsmn_parser \<Rightarrow> jsmntok_t list \<Rightarrow> jsmntok_t list" where
  "size_incr parser ts =
     (if toksuper parser \<noteq> -1
      then ts[nat (toksuper parser) :=
              (ts ! nat (toksuper parser))\<lparr>tok_size := tok_size (ts ! nat (toksuper parser)) + 1\<rparr>]
      else ts)"

definition jsmn_case_open :: "char \<Rightarrow> jsmn_parser \<Rightarrow> pool \<Rightarrow> int \<Rightarrow> loop_step" where
  "jsmn_case_open c parser tokens count =
     (case tokens of
        None \<Rightarrow> Break parser None (count + 1)
      | Some ts \<Rightarrow>
          (case jsmn_alloc_token parser ts of
             None \<Rightarrow> Return JSMN_ERROR_NOMEM parser tokens
           | Some (parser', ts') \<Rightarrow>
               (let ts2 = size_incr parser' ts';
                    i = toknext parser' - 1;
                    ts3 = ts2[i := (ts2 ! i)\<lparr>tok_type := (if c = CHR ''{'' then JSMN_OBJECT else JSMN_ARRAY),
                                              tok_start := int (pos parser')\<rparr>]
                in Break (parser'\<lparr>toksuper := int (toknext parser') - 1\<rparr>) (Some ts3) (count + 1))))"

definition jsmn_case_close :: "char \<Rightarrow> jsmn_parser \<Rightarrow> pool \<Rightarrow> int \<Rightarrow> loop_step" where
  "jsmn_case_close c parser tokens count =
     (case tokens of
        None \<Rightarrow> Break parser None count
      | Some ts \<Rightarrow>
          (let ty = (if c = CHR ''}'' then JSMN_OBJECT else JSMN_ARRAY) in
           case scan_back is_open ts (toknext parser) of
             None \<Rightarrow> Return JSMN_ERROR_INVAL parser tokens
           | Some i \<Rightarrow>
               if tok_type (ts ! i) \<noteq> ty then Return JSMN_ERROR_INVAL parser tokens
               else
                 (let ts' = ts[i := (ts ! i)\<lparr>tok_end := int (pos parser) + 1\<rparr>] in
                  Break (parser\<lparr>toksuper := (case scan_back is_open ts' (Suc i) of
                                                 None \<Rightarrow> -1 | Some j \<Rightarrow> int j)\<rparr>)
                        (Some ts') count)))"

definition jsmn_case_string :: "string \<Rightarrow> jsmn_parser \<Rightarrow> pool \<Rightarrow> int \<Rightarrow> loop_step" where
  "jsmn_case_string js parser tokens count =
     (case jsmn_parse_string parser js tokens of
        (Inl e, parser', tokens') \<Rightarrow> Return e parser' tokens'
      | (Inr _, parser', tokens') \<Rightarrow>
          Break parser' (map_option (size_incr parser') tokens') (count + 1))"

definition jsmn_case_colon :: "jsmn_parser \<Rightarrow> pool \<Rightarrow> int \<Rightarrow> loop_step" where
  "jsmn_case_colon parser tokens count =
     Break (parser\<lparr>toksuper := int (toknext parser) - 1\<rparr>) tokens count"

definition jsmn_case_comma :: "jsmn_parser \<Rightarrow> pool \<Rightarrow> int \<Rightarrow> loop_step" where
  "jsmn_case_comma parser tokens count =
     (case tokens of
        None \<Rightarrow> Break parser None count
      | Some ts \<Rightarrow>
          if toksuper parser \<noteq> -1
             \<and> tok_type (ts ! nat (toksuper parser)) \<noteq> JSMN_ARRAY
             \<and> tok_type (ts ! nat (toksuper parser)) \<noteq> JSMN_OBJECT
          then (case scan_back (\<lambda>t. is_container t \<and> is_open t) ts (toknext parser) of
                  None \<Rightarrow> Break parser tokens count
                | Some i \<Rightarrow> Break (parser\<lparr>toksuper := int i\<rparr>) tokens count)
          else Break parser tokens count)"

definition jsmn_case_primitive :: "string \<Rightarrow> jsmn_parser \<Rightarrow> pool \<Rightarrow> int \<Rightarrow> loop_step" where
  "jsmn_case_primitive js parser tokens count =
     (case jsmn_parse_primitive parser js tokens of
        (Inl e, parser', tokens') \<Rightarrow> Return e parser' tokens'
      | (Inr _, parser', tokens') \<Rightarrow>
          Break parser' (map_option (size_incr parser') tokens') (count + 1))"

definition is_space :: "char \<Rightarrow> bool" where
  "is_space c \<longleftrightarrow> c = CHR 0x09 \<or> c = CHR 0x0D \<or> c = CHR 0x0A \<or> c = CHR '' ''"

definition jsmn_parse_switch :: "string \<Rightarrow> jsmn_parser \<Rightarrow> pool \<Rightarrow> int \<Rightarrow> loop_step" where
  "jsmn_parse_switch js parser tokens count =
     (let c = js ! pos parser in
      if c = CHR ''{'' \<or> c = CHR ''['' then jsmn_case_open c parser tokens count
      else if c = CHR ''}'' \<or> c = CHR '']'' then jsmn_case_close c parser tokens count
      else if c = quote then jsmn_case_string js parser tokens count
      else if is_space c then Break parser tokens count
      else if c = CHR '':'' then jsmn_case_colon parser tokens count
      else if c = CHR '','' then jsmn_case_comma parser tokens count
      else jsmn_case_primitive js parser tokens count)"

lemma jsmn_parse_primitive_loop_ge: "jsmn_parse_primitive_loop js p = Some q \<Longrightarrow> p \<le> q"
proof (induction js p rule: jsmn_parse_primitive_loop.induct)
  case (1 js p)
  show ?case
  proof (cases "p < length js \<and> js ! p \<noteq> NUL \<and> \<not> prim_delim (js ! p)")
    case True
    with "1.prems" have "jsmn_parse_primitive_loop js (p + 1) = Some q"
      and "\<not> ((of_char (js ! p) :: nat) < 32 \<or> (of_char (js ! p) :: nat) \<ge> 127)"
      by (auto simp: jsmn_parse_primitive_loop.simps [of js p] split: if_splits)
    with True "1.IH" have "p + 1 \<le> q" by blast
    then show ?thesis by simp
  next
    case False
    with "1.prems" have "q = p"
      by (auto simp: jsmn_parse_primitive_loop.simps [of js p] split: if_splits)
    then show ?thesis by simp
  qed
qed

lemma jsmn_parse_primitive_loop_gt:
  assumes "jsmn_parse_primitive_loop js p = Some q"
    and "p < length js" and "js ! p \<noteq> NUL" and "\<not> prim_delim (js ! p)"
  shows "p < q"
proof -
  from assms have "jsmn_parse_primitive_loop js (p + 1) = Some q"
    by (auto simp: jsmn_parse_primitive_loop.simps [of js p] split: if_splits)
  then have "p + 1 \<le> q" by (rule jsmn_parse_primitive_loop_ge)
  then show ?thesis by simp
qed

lemma jsmn_parse_string_loop_ge: "jsmn_parse_string_loop js p = Inr q \<Longrightarrow> p \<le> q"
proof (induction js p rule: jsmn_parse_string_loop.induct)
  case (1 js p)
  from "1.prems" have inb: "p < length js" "js ! p \<noteq> NUL"
    by (auto simp: jsmn_parse_string_loop.simps [of js p] split: if_splits)
  show ?case
  proof (cases "js ! p = quote")
    case True
    with inb "1.prems" show ?thesis
      by (simp add: jsmn_parse_string_loop.simps [of js p])
  next
    case nq: False
    show ?thesis
    proof (cases "js ! p = backslash \<and> p + 1 < length js")
      case False
      with nq inb "1.prems" have "jsmn_parse_string_loop js (p + 1) = Inr q"
        by (auto simp: jsmn_parse_string_loop.simps [of js p] split: if_splits)
      with "1.IH"(3) inb nq False have "p + 1 \<le> q" by blast
      then show ?thesis by simp
    next
      case bs: True
      show ?thesis
      proof (cases "simple_escape (js ! (p + 1))")
        case True
        with nq inb bs "1.prems" have "jsmn_parse_string_loop js (p + 2) = Inr q"
          by (auto simp: jsmn_parse_string_loop.simps [of js p] split: if_splits)
        with "1.IH"(1) inb nq bs True have "p + 2 \<le> q" by blast
        then show ?thesis by simp
      next
        case False
        with nq inb bs "1.prems" obtain r where r: "js ! (p + 1) = CHR ''u''"
            "jsmn_hex_loop 4 js (p + 2) = Some r" "jsmn_parse_string_loop js (r - 1 + 1) = Inr q"
          by (auto simp: jsmn_parse_string_loop.simps [of js p] split: if_splits option.splits)
        with "1.IH"(2) inb nq bs False have "r - 1 + 1 \<le> q" by blast
        moreover from r(2) have "p + 2 \<le> r" by (rule jsmn_hex_loop_ge)
        ultimately show ?thesis by simp
      qed
    qed
  qed
qed

lemma jsmn_parse_switch_pos:
  assumes "jsmn_parse_switch js parser tokens count = Break parser' tokens' count'"
    and "pos parser < length js" and "js ! pos parser \<noteq> NUL"
  shows "pos parser \<le> pos parser'"
proof -
  let ?c = "js ! pos parser"
  consider (op) "?c = CHR ''{'' \<or> ?c = CHR ''[''"
    | (cl) "?c = CHR ''}'' \<or> ?c = CHR '']''"
    | (str) "?c = quote"
    | (other) "is_space ?c \<or> ?c = CHR '':'' \<or> ?c = CHR '',''"
    | (prim) "\<not> (?c = CHR ''{'' \<or> ?c = CHR ''['')" "\<not> (?c = CHR ''}'' \<or> ?c = CHR '']'')"
        "?c \<noteq> quote" "\<not> is_space ?c" "?c \<noteq> CHR '':''" "?c \<noteq> CHR '',''"
    by blast
  then show ?thesis
  proof cases
    case op
    with assms(1) show ?thesis
      by (auto simp: jsmn_parse_switch_def jsmn_case_open_def jsmn_alloc_token_def Let_def
          split: option.splits if_splits)
  next
    case cl
    with assms(1) show ?thesis
      by (auto simp: jsmn_parse_switch_def jsmn_case_close_def Let_def quote_def
          split: option.splits if_splits)
  next
    case str
    with assms(1) show ?thesis
      by (auto simp: jsmn_parse_switch_def jsmn_case_string_def jsmn_parse_string_def
          jsmn_alloc_token_def Let_def quote_def
          split: option.splits if_splits sum.splits prod.splits
          dest!: jsmn_parse_string_loop_ge)
  next
    case other
    with assms(1) show ?thesis
      by (auto simp: jsmn_parse_switch_def jsmn_case_colon_def jsmn_case_comma_def
          Let_def quote_def is_space_def
          split: option.splits if_splits)
  next
    case prim
    then have nd: "\<not> prim_delim ?c"
      by (auto simp: prim_delim_def is_space_def)
    from prim assms(1) have *: "jsmn_case_primitive js parser tokens count = Break parser' tokens' count'"
      by (simp add: jsmn_parse_switch_def Let_def)
    then obtain q where q: "jsmn_parse_primitive_loop js (pos parser) = Some q" "pos parser' = q - 1"
      by (auto simp: jsmn_case_primitive_def jsmn_parse_primitive_def
          jsmn_alloc_token_def Let_def
          split: option.splits if_splits sum.splits prod.splits)
    from jsmn_parse_primitive_loop_gt [OF q(1) assms(2,3) nd] q(2) show ?thesis by simp
  qed
qed

function jsmn_parse_loop :: "string \<Rightarrow> jsmn_parser \<Rightarrow> pool \<Rightarrow> int \<Rightarrow> int outcome" where
  "jsmn_parse_loop js parser tokens count =
     (if pos parser < length js \<and> js ! pos parser \<noteq> NUL then
        (case jsmn_parse_switch js parser tokens count of
           Return e parser' tokens' \<Rightarrow> (Inl e, parser', tokens')
         | Break parser' tokens' count' \<Rightarrow>
             jsmn_parse_loop js (parser'\<lparr>pos := pos parser' + 1\<rparr>) tokens' count')
      else (Inr count, parser, tokens))"
  by pat_completeness auto
termination
proof (relation "measure (\<lambda>(js, parser, tokens, count). length js - pos parser)", goal_cases)
  case 1
  show ?case by simp
next
  case (2 js parser tokens count parser' tokens' count')
  then have "pos parser \<le> pos parser'"
    using jsmn_parse_switch_pos [of js parser tokens count parser' tokens' count'] by simp
  with 2 show ?case by (simp add: less_diff_conv2 Suc_diff_le diff_less_mono2)
qed

declare jsmn_parse_loop.simps [simp del]

text \<open>\<^verbatim>\<open>jsmn_parse\<close>: the loop, then the check for a token left open.\<close>

definition jsmn_parse :: "jsmn_parser \<Rightarrow> string \<Rightarrow> pool \<Rightarrow> int outcome" where
  "jsmn_parse parser js tokens =
     (case jsmn_parse_loop js parser tokens (int (toknext parser)) of
        (Inl e, parser', tokens') \<Rightarrow> (Inl e, parser', tokens')
      | (Inr count, parser', tokens') \<Rightarrow>
          (case tokens' of
             None \<Rightarrow> (Inr count, parser', tokens')
           | Some ts \<Rightarrow>
               (case scan_back is_open ts (toknext parser') of
                  Some i \<Rightarrow> (Inl JSMN_ERROR_PART, parser', tokens')
                | None \<Rightarrow> (Inr count, parser', tokens'))))"

subsection \<open>The lookup helper \<^verbatim>\<open>get_json_value\<close>\<close>

text \<open>
  A C string argument is a list of bytes read up to its first \<open>NUL\<close> (or to the end of
  the list, where the terminator stands). The two calls of \<^verbatim>\<open>malloc\<close> are the
  environment: \<open>tokens_mem\<close> is \<open>None\<close> when the first call returns a null pointer and
  \<open>Some g\<close> when it returns an array whose slot \<open>i\<close> holds the indeterminate value
  \<open>g i\<close>; \<open>value_mem\<close> tells whether the second call succeeds. The messages passed to
  \<^verbatim>\<open>FURI_LOG_E\<close> are collected in a list, the only trace of them outside the result.
\<close>

definition strlen :: "string \<Rightarrow> nat" where
  "strlen s = length (takeWhile (\<lambda>c. c \<noteq> NUL) s)"

definition c_byte :: "string \<Rightarrow> char" where
  "c_byte s = (case s of [] \<Rightarrow> NUL | c # _ \<Rightarrow> c)"

text \<open>\<^verbatim>\<open>strncmp(a, b, n) == 0\<close>.\<close>

fun strncmp_eq :: "string \<Rightarrow> string \<Rightarrow> nat \<Rightarrow> bool" where
  "strncmp_eq a b 0 = True"
| "strncmp_eq a b (Suc n) =
     (if c_byte a \<noteq> c_byte b then False
      else if c_byte a = NUL then True
      else strncmp_eq (tl a) (tl b) n)"

definition jsoneq :: "string \<Rightarrow> jsmntok_t \<Rightarrow> string \<Rightarrow> int" where
  "jsoneq json tok s =
     (if tok_type tok = JSMN_STRING \<and> int (strlen s) = tok_end tok - tok_start tok
         \<and> strncmp_eq (drop (nat (tok_start tok)) json) s (nat (tok_end tok - tok_start tok))
      then 0 else -1)"

datatype furi_log =
    Log_tokens_alloc_failed
  | Log_parse_failed jsmnerr
  | Log_root_not_object
  | Log_value_alloc_failed
  | Log_json_null
  | Log_key_not_found

text \<open>What a call of \<^verbatim>\<open>get_json_value\<close> does: it returns a pointer (\<open>None\<close> is \<^verbatim>\<open>NULL\<close>,
  \<open>Some v\<close> a fresh C string with the bytes \<open>v\<close>) after logging the messages, or it does
  what C leaves undefined: it reads a token outside the block of tokens or bytes outside
  the text, it writes outside a block, or a signed subtraction or addition overflows.\<close>

datatype gjv_result =
    Returns "furi_log list" "string option"
  | Undefined_read
  | Undefined_write
  | Undefined_overflow

text \<open>The \<^verbatim>\<open>for (int i = 1; i < ret; i++)\<close> loop, up to the match: the index of the first
  token for which \<^verbatim>\<open>jsoneq\<close> returns 0.\<close>

function find_key :: "string \<Rightarrow> jsmntok_t list \<Rightarrow> string \<Rightarrow> int \<Rightarrow> int \<Rightarrow> nat option" where
  "find_key json_data tokens key ret i =
     (if i < ret then
        (if jsoneq json_data (tokens ! nat i) key = 0 then Some (nat i)
         else find_key json_data tokens key ret (i + 1))
      else None)"
  by pat_completeness auto
termination
  by (relation "measure (\<lambda>(json_data, tokens, key, ret, i). nat (ret - i))") auto

declare find_key.simps [simp del]

text \<open>
  The block of tokens: \<^verbatim>\<open>malloc(sizeof(jsmntok_t) * max_tokens)\<close>. The product is computed
  in \<^verbatim>\<open>size_t\<close> and wraps around at \<open>2^32\<close>: the block has room for \<open>block_slots max_tokens\<close>
  tokens, which is \<open>max_tokens\<close> below \<open>2^28\<close> and less from there on (lemmas
  \<open>block_slots_small\<close> and \<open>block_slots_wrap\<close>).
\<close>

definition sizeof_jsmntok_t :: "32 word" where
  "sizeof_jsmntok_t = 16"

definition block_slots :: "32 word \<Rightarrow> nat" where
  "block_slots max_tokens = unat (sizeof_jsmntok_t * max_tokens) div unat sizeof_jsmntok_t"

text \<open>The values of an \<^verbatim>\<open>int\<close>.\<close>

definition int_range :: "int \<Rightarrow> bool" where
  "int_range x \<longleftrightarrow> - (2 ^ 31) \<le> x \<and> x \<le> 2 ^ 31 - 1"

text \<open>
  The body of the match, in the order of the code: \<^verbatim>\<open>tokens[i + 1]\<close> is read (beyond the
  block, the read is undefined) and \<^verbatim>\<open>length\<close> and \<^verbatim>\<open>length + 1\<close> are computed in \<^verbatim>\<open>int\<close>;
  \<^verbatim>\<open>malloc(length + 1)\<close> is called and a null pointer returned when it fails; only then are
  the bytes read, from \<^verbatim>\<open>json_data + start\<close> up to the terminator of the text, and written
  to the copy. A start outside the text is an undefined read; with a negative \<^verbatim>\<open>length\<close>,
  \<^verbatim>\<open>strncpy\<close> and \<^verbatim>\<open>value[length] = 0\<close> write outside the copy.
\<close>

definition copy_value :: "string \<Rightarrow> jsmntok_t list \<Rightarrow> nat \<Rightarrow> bool \<Rightarrow> gjv_result" where
  "copy_value json_data tokens i value_mem =
     (if i + 1 \<ge> length tokens then Undefined_read
      else
        (let length' = tok_end (tokens ! (i + 1)) - tok_start (tokens ! (i + 1));
             start = tok_start (tokens ! (i + 1)) in
         if \<not> int_range length' \<or> \<not> int_range (length' + 1) then Undefined_overflow
         else if \<not> value_mem then Returns [Log_value_alloc_failed] None
         else if start < 0 \<or> start > int (strlen json_data) then Undefined_read
         else if length' < 0 then Undefined_write
         else Returns []
                (Some (take (nat length') (drop (nat start) (take (strlen json_data) json_data))))))"

text \<open>
  \<^verbatim>\<open>get_json_value\<close>. The parser is told \<^verbatim>\<open>max_tokens\<close> slots; the list it is run on has that
  many, of which the first \<open>block_slots max_tokens\<close> are the block. \<^verbatim>\<open>jsmn_parse\<close> writes
  the slots below \<^verbatim>\<open>toknext\<close> and no other, so it has written beyond the block exactly when
  its final \<^verbatim>\<open>toknext\<close> exceeds \<open>block_slots max_tokens\<close>.
\<close>

definition get_json_value ::
    "string \<Rightarrow> string option \<Rightarrow> 32 word \<Rightarrow> (nat \<Rightarrow> jsmntok_t) option \<Rightarrow> bool \<Rightarrow> gjv_result" where
  "get_json_value key json_data max_tokens tokens_mem value_mem =
     (case json_data of
        None \<Rightarrow> Returns [Log_json_null, Log_key_not_found] None
      | Some json \<Rightarrow>
          (case tokens_mem of
             None \<Rightarrow> Returns [Log_tokens_alloc_failed] None
           | Some g \<Rightarrow>
               (case jsmn_parse jsmn_init (take (strlen json) json)
                       (Some (map g [0..<unat max_tokens])) of
                  (r, parser, tokens') \<Rightarrow>
                    if block_slots max_tokens < toknext parser then Undefined_write
                    else
                      (case (r, tokens') of
                         (Inl e, _) \<Rightarrow> Returns [Log_parse_failed e] None
                       | (Inr ret, None) \<Rightarrow> Undefined_read
                       | (Inr ret, Some tokens) \<Rightarrow>
                           if ret < 1 \<or> tok_type (tokens ! 0) \<noteq> JSMN_OBJECT
                           then Returns [Log_root_not_object] None
                           else
                             (case find_key json tokens key ret 1 of
                                Some i \<Rightarrow>
                                  copy_value json (take (block_slots max_tokens) tokens) i value_mem
                              | None \<Rightarrow> Returns [Log_key_not_found] None)))))"

text \<open>The case of a successful parse with no pool stands for a pool pointer that
  \<^verbatim>\<open>jsmn_parse\<close> would have changed; it never does (lemma \<open>jsmn_parse_ok\<close>).\<close>

subsection \<open>The contents of a JSON string\<close>

text \<open>
  Stated from the grammar of JSON (RFC 8259, section 7), as the specification names it:
  the text between the quotes of a string is a sequence of bytes other than the quote,
  the backslash and \<open>NUL\<close>, of two-byte escapes, and of \<^verbatim>\<open>\u\<close> followed by four hex
  digits. (The grammar of JSON also excludes the control characters; admitting them makes
  the statements below cover more texts.) \<open>open_tail\<close> is what is left of an escape that
  the end of the buffer cuts short.
\<close>

inductive str_body :: "string \<Rightarrow> bool" where
  Nil: "str_body []"
| Plain: "c \<noteq> quote \<Longrightarrow> c \<noteq> backslash \<Longrightarrow> c \<noteq> NUL \<Longrightarrow> str_body cs \<Longrightarrow> str_body (c # cs)"
| Esc: "simple_escape e \<Longrightarrow> str_body cs \<Longrightarrow> str_body (backslash # e # cs)"
| Uni: "is_hex h1 \<Longrightarrow> is_hex h2 \<Longrightarrow> is_hex h3 \<Longrightarrow> is_hex h4 \<Longrightarrow> str_body cs
        \<Longrightarrow> str_body (backslash # CHR ''u'' # h1 # h2 # h3 # h4 # cs)"

code_pred str_body .

definition open_tail :: "string \<Rightarrow> bool" where
  "open_tail t \<longleftrightarrow> t = [] \<or> t = [backslash]
     \<or> (\<exists>hs. t = backslash # CHR ''u'' # hs \<and> length hs < 4 \<and> list_all is_hex hs)"

subsection \<open>Byte spans and C strings\<close>

text \<open>The bytes \<open>[start, end)\<close> of a token, and the contents of a C string up to its
  terminator.\<close>

definition span :: "string \<Rightarrow> jsmntok_t \<Rightarrow> string" where
  "span js t = take (nat (tok_end t - tok_start t)) (drop (nat (tok_start t)) js)"

definition c_str :: "string \<Rightarrow> string" where
  "c_str s = take (strlen s) s"

text \<open>
  Stated from the words of the specification, for comparison with \<open>get_json_value\<close>: a
  token is at the top level of the root object when no token other than the root (slot 0)
  and itself spans it; \<open>top_level_matches\<close> lists the top-level String tokens whose bytes
  equal the key.
\<close>

definition encloses :: "jsmntok_t \<Rightarrow> jsmntok_t \<Rightarrow> bool" where
  "encloses u t \<longleftrightarrow> tok_start u \<le> tok_start t \<and> tok_end t \<le> tok_end u"

definition top_level :: "jsmntok_t list \<Rightarrow> nat \<Rightarrow> nat \<Rightarrow> bool" where
  "top_level ts ret i \<longleftrightarrow> list_all (\<lambda>j. j = i \<or> \<not> encloses (ts ! j) (ts ! i)) [1..<ret]"

definition top_level_matches :: "string \<Rightarrow> jsmntok_t list \<Rightarrow> string \<Rightarrow> nat \<Rightarrow> nat list" where
  "top_level_matches json ts key ret =
     filter (\<lambda>i. top_level ts ret i \<and> tok_type (ts ! i) = JSMN_STRING \<and> span json (ts ! i) = c_str key)
       [1..<ret]"

subsection \<open>JSON documents\<close>

text \<open>
  Stated from the grammar of JSON (RFC 8259), as the specification names it, for
  comparison with \<open>jsmn_parse\<close>: a document is a syntax tree, \<open>render\<close> is its text and
  \<open>elements\<close> lists its structural and leaf elements in the order of their first byte,
  each with its kind and its textual form (a string without its quotes). A value is a
  primitive, a string, an array or an object; \<open>JPad\<close> puts whitespace around a value, and
  the strings of \<open>JArr\<close>, \<open>JObj\<close> and \<open>Member\<close> are the whitespace after the opening bracket,
  before the key and before the colon. The keys of an object are strings.
\<close>

datatype json =
    JPrim string
  | JStr string
  | JArr string "json list"
  | JObj string "member list"
  | JPad string json string
and member = Member string string string json

fun commas :: "string list \<Rightarrow> string" where
  "commas [] = []"
| "commas [x] = x"
| "commas (x # y # zs) = x @ CHR '','' # commas (y # zs)"

primrec render :: "json \<Rightarrow> string" and render_member :: "member \<Rightarrow> string" where
  "render (JPrim s) = s"
| "render (JStr b) = quote # b @ [quote]"
| "render (JArr w vs) = CHR ''['' # w @ commas (map render vs) @ '']''"
| "render (JObj w ms) = CHR ''{'' # w @ commas (map render_member ms) @ ''}''"
| "render (JPad a v b) = a @ render v @ b"
| "render_member (Member a k b v) = a @ quote # k @ quote # b @ CHR '':'' # render v"

primrec elements :: "json \<Rightarrow> (jsmntype_t \<times> string) list"
  and member_elements :: "member \<Rightarrow> (jsmntype_t \<times> string) list" where
  "elements (JPrim s) = [(JSMN_PRIMITIVE, s)]"
| "elements (JStr b) = [(JSMN_STRING, b)]"
| "elements (JArr w vs) = (JSMN_ARRAY, CHR ''['' # w @ commas (map render vs) @ '']'') # concat (map elements vs)"
| "elements (JObj w ms) = (JSMN_OBJECT, CHR ''{'' # w @ commas (map render_member ms) @ ''}'') # concat (map member_elements ms)"
| "elements (JPad a v b) = elements v"
| "member_elements (Member a k b v) = (JSMN_STRING, k) # elements v"

text \<open>
  The literals of JSON: \<^verbatim>\<open>true\<close>, \<^verbatim>\<open>false\<close>, \<^verbatim>\<open>null\<close> and the numbers (an optional minus
  sign, an integer part without a leading zero, an optional fraction, an optional
  exponent).
\<close>

definition is_digit :: "char \<Rightarrow> bool" where
  "is_digit c \<longleftrightarrow> 48 \<le> (of_char c :: nat) \<and> (of_char c :: nat) \<le> 57"

definition digits :: "string \<Rightarrow> bool" where
  "digits s \<longleftrightarrow> s \<noteq> [] \<and> list_all is_digit s"

definition json_number :: "string \<Rightarrow> bool" where
  "json_number s \<longleftrightarrow>
     (\<exists>sign ip frac ex. s = sign @ ip @ frac @ ex
        \<and> (sign = [] \<or> sign = ''-'')
        \<and> (ip = ''0'' \<or> digits ip \<and> hd ip \<noteq> CHR ''0'')
        \<and> (frac = [] \<or> (\<exists>d. frac = CHR ''.'' # d \<and> digits d))
        \<and> (ex = [] \<or> (\<exists>e sg d. ex = e # sg @ d \<and> (e = CHR ''e'' \<or> e = CHR ''E'')
               \<and> (sg = [] \<or> sg = ''+'' \<or> sg = ''-'') \<and> digits d)))"

definition json_literal :: "string \<Rightarrow> bool" where
  "json_literal s \<longleftrightarrow> s = ''true'' \<or> s = ''false'' \<or> s = ''null'' \<or> json_number s"

text \<open>
  The texts admitted as a primitive are more than the literals of JSON (lemma
  \<open>json_literal_prim_text\<close>): any non-empty text of printable ASCII bytes without a
  delimiter of \<open>jsmn_parse_primitive\<close>, that does not begin with a quote or an opening
  bracket. The whitespace is that of JSON: space, tab, line feed and carriage return,
  which is \<open>is_space\<close>. A document is valid when its primitives, its strings and its
  whitespace are.
\<close>

definition prim_char :: "char \<Rightarrow> bool" where
  "prim_char c \<longleftrightarrow> \<not> prim_delim c \<and> 32 \<le> (of_char c :: nat) \<and> (of_char c :: nat) < 127"

definition prim_text :: "string \<Rightarrow> bool" where
  "prim_text s \<longleftrightarrow> s \<noteq> [] \<and> hd s \<noteq> quote \<and> hd s \<noteq> CHR ''{'' \<and> hd s \<noteq> CHR ''[''
     \<and> list_all prim_char s"

primrec valid :: "json \<Rightarrow> bool" and valid_member :: "member \<Rightarrow> bool" where
  "valid (JPrim s) \<longleftrightarrow> prim_text s"
| "valid (JStr b) \<longleftrightarrow> str_body b"
| "valid (JArr w vs) \<longleftrightarrow> list_all is_space w \<and> list_all valid vs"
| "valid (JObj w ms) \<longleftrightarrow> list_all is_space w \<and> list_all valid_member ms"
| "valid (JPad a v b) \<longleftrightarrow> list_all is_space a \<and> list_all is_space b \<and> valid v"
| "valid_member (Member a k b v) \<longleftrightarrow> list_all is_space a \<and> list_all is_space b \<and> str_body k \<and> valid v"

subsection \<open>Notions for the run of the driver over a document\<close>

text \<open>
  \<open>core\<close> is what a token says of its element (the count of children apart), \<open>bump\<close> the
  increment of the superior token's count, \<open>encl\<close> the superior token that a closing
  bracket restores. \<open>extends js ts n ts' es\<close>: the pool \<open>ts'\<close> is \<open>ts\<close> with the slots from
  \<open>n\<close> on filled by closed tokens for the elements \<open>es\<close>. \<open>run\<close> is the driver's loop
  started from given fields of the parser. \<open>inside ts c0 n\<close>: of the first \<open>n\<close> tokens,
  \<open>c0\<close> is the last open one, and it is a container. \<open>item_ok x es\<close>: wherever the text
  \<open>x\<close> stands in the buffer, followed by a delimiter or by the end of the buffer, the loop
  runs over it, allocates the tokens of \<open>es\<close> and leaves a superior token that the next
  comma or closing bracket handles.
\<close>

definition core :: "jsmntok_t \<Rightarrow> jsmntype_t \<times> int \<times> int" where
  "core t = (tok_type t, tok_start t, tok_end t)"

definition bump :: "int \<Rightarrow> jsmntok_t list \<Rightarrow> jsmntok_t list" where
  "bump s ts = (if s \<noteq> -1 then ts[nat s := (ts ! nat s)\<lparr>tok_size := tok_size (ts ! nat s) + 1\<rparr>] else ts)"

definition extends ::
    "string \<Rightarrow> jsmntok_t list \<Rightarrow> nat \<Rightarrow> jsmntok_t list \<Rightarrow> (jsmntype_t \<times> string) list \<Rightarrow> bool" where
  "extends js ts n ts' es \<longleftrightarrow>
     length ts' = length ts \<and> n + length es \<le> length ts
     \<and> (\<forall>i<n. core (ts' ! i) = core (ts ! i))
     \<and> (\<forall>i<length es. tok_start (ts' ! (n + i)) \<noteq> -1 \<and> tok_end (ts' ! (n + i)) \<noteq> -1
            \<and> (tok_type (ts' ! (n + i)), span js (ts' ! (n + i))) = es ! i)"

definition encl :: "jsmntok_t list \<Rightarrow> nat \<Rightarrow> int" where
  "encl ts n = (case scan_back is_open ts n of None \<Rightarrow> -1 | Some j \<Rightarrow> int j)"

abbreviation run :: "string \<Rightarrow> nat \<Rightarrow> nat \<Rightarrow> int \<Rightarrow> jsmntok_t list \<Rightarrow> int \<Rightarrow> int outcome" where
  "run js a n s ts k \<equiv> jsmn_parse_loop js \<lparr>pos = a, toknext = n, toksuper = s\<rparr> (Some ts) k"

definition inside :: "jsmntok_t list \<Rightarrow> nat \<Rightarrow> nat \<Rightarrow> bool" where
  "inside ts c0 n \<longleftrightarrow> c0 < n \<and> is_open (ts ! c0) \<and> is_container (ts ! c0)
     \<and> (\<forall>i. c0 < i \<and> i < n \<longrightarrow> \<not> is_open (ts ! i))"

definition item_ok :: "string \<Rightarrow> (jsmntype_t \<times> string) list \<Rightarrow> bool" where
  "item_ok x es \<longleftrightarrow>
     (\<forall>pre post n s ts k.
        (post = [] \<or> prim_delim (hd post)) \<longrightarrow> n + length es \<le> length ts \<longrightarrow>
        -1 \<le> s \<longrightarrow> s < int n \<longrightarrow>
        (\<exists>ts' s'.
           run (pre @ x @ post) (length pre) n s ts k
             = run (pre @ x @ post) (length pre + length x) (n + length es) s' ts'
                 (k + int (length es))
           \<and> extends (pre @ x @ post) ts n ts' es
           \<and> (s' = s \<or> s' = encl ts n
               \<or> (int n \<le> s' \<and> s' < int (n + length es) \<and> \<not> is_container (ts' ! nat s')))))"

subsection \<open>Concrete pools for the examples\<close>

definition junk :: jsmntok_t where
  "junk = \<lparr>tok_type = JSMN_STRING, tok_start = 7, tok_end = -1, tok_size = 5\<rparr>"

definition junk_mem :: "nat \<Rightarrow> jsmntok_t" where
  "junk_mem i = junk"

text \<open>The example of the specification, and the tokens it is parsed into.\<close>

definition nested_example :: string where
  "nested_example = ''{\"a\":[1,2,{\"b\":true}]}''"

definition nested_tokens :: "jsmntok_t list" where
  "nested_tokens =
     [\<lparr>tok_type = JSMN_OBJECT, tok_start = 0, tok_end = 22, tok_size = 1\<rparr>,
      \<lparr>tok_type = JSMN_STRING, tok_start = 2, tok_end = 3, tok_size = 1\<rparr>,
      \<lparr>tok_type = JSMN_ARRAY, tok_start = 5, tok_end = 21, tok_size = 3\<rparr>,
      \<lparr>tok_type = JSMN_PRIMITIVE, tok_start = 6, tok_end = 7, tok_size = 0\<rparr>,
      \<lparr>tok_type = JSMN_PRIMITIVE, tok_start = 8, tok_end = 9, tok_size = 0\<rparr>,
      \<lparr>tok_type = JSMN_OBJECT, tok_start = 10, tok_end = 20, tok_size = 1\<rparr>,
      \<lparr>tok_type = JSMN_STRING, tok_start = 12, tok_end = 13, tok_size = 1\<rparr>,
      \<lparr>tok_type = JSMN_PRIMITIVE, tok_start = 15, tok_end = 19, tok_size = 0\<rparr>]"

text \<open>A document with whitespace, an object, an array, strings and primitives.\<close>

definition example_doc :: json where
  "example_doc =
     JPad '' '' (JObj [] [Member [] ''a'' '' '' (JArr [] [JPrim ''1'', JPad '' '' (JStr ''x'') []]),
                          Member '' '' ''b'' [] (JPrim ''null'')]) [CHR 0x0A]"

section \<open>Invariants of the driver\<close>

text \<open>
  From \<open>jsmn_init\<close> on, at the head of the loop: the cursor is inside the buffer, the
  allocated slots are inside the pool, \<open>toksuper\<close> is \<open>-1\<close> or the index of an allocated
  slot, and every allocated token starts at a byte already read and is either open
  (\<open>end = -1\<close>) or ends at a byte already read. So every index the code uses is in range.
\<close>

lemma scan_back_Some:
  "scan_back P ts n = Some i \<Longrightarrow> i < n \<and> P (ts ! i) \<and> (\<forall>j. i < j \<and> j < n \<longrightarrow> \<not> P (ts ! j))"
proof (induction n)
  case 0
  then show ?case by simp
next
  case (Suc n)
  show ?case
  proof (cases "P (ts ! n)")
    case True
    with Suc.prems show ?thesis by auto
  next
    case False
    with Suc.prems have "scan_back P ts n = Some i" by simp
    from Suc.IH [OF this] False show ?thesis
      by (auto simp: less_Suc_eq)
  qed
qed

lemma scan_back_None: "scan_back P ts n = None \<longleftrightarrow> (\<forall>i<n. \<not> P (ts ! i))"
  by (induction n) (auto simp: less_Suc_eq)

definition tok_ok :: "nat \<Rightarrow> jsmntok_t \<Rightarrow> bool" where
  "tok_ok p t \<longleftrightarrow> 0 \<le> tok_start t \<and> tok_start t \<le> int p
      \<and> (tok_end t = -1 \<or> (tok_start t \<le> tok_end t \<and> tok_end t \<le> int p))"

definition parser_ok :: "string \<Rightarrow> jsmn_parser \<Rightarrow> jsmntok_t list \<Rightarrow> bool" where
  "parser_ok js parser ts \<longleftrightarrow>
     pos parser \<le> length js \<and> toknext parser \<le> length ts
     \<and> -1 \<le> toksuper parser \<and> toksuper parser < int (toknext parser)
     \<and> (\<forall>i < toknext parser. tok_ok (pos parser) (ts ! i))"

lemma parser_ok_init: "parser_ok js jsmn_init ts"
  by (simp add: parser_ok_def jsmn_init_def)

lemma tok_ok_mono: "tok_ok p t \<Longrightarrow> p \<le> q \<Longrightarrow> tok_ok q t"
  by (auto simp: tok_ok_def)


definition toks_ok :: "nat \<Rightarrow> jsmntok_t list \<Rightarrow> nat \<Rightarrow> bool" where
  "toks_ok q ts n \<longleftrightarrow> (\<forall>i<n. tok_ok q (ts ! i))"

lemma toks_ok_mono: "toks_ok p ts n \<Longrightarrow> p \<le> q \<Longrightarrow> toks_ok q ts n"
  by (auto simp: toks_ok_def intro: tok_ok_mono)

lemma toks_ok_update: "toks_ok q ts n \<Longrightarrow> tok_ok q t \<Longrightarrow> toks_ok q (ts[k := t]) n"
  by (cases "k < length ts") (auto simp: toks_ok_def nth_list_update list_update_beyond)

lemma toks_ok_Suc: "toks_ok q ts n \<Longrightarrow> tok_ok q (ts ! n) \<Longrightarrow> toks_ok q ts (Suc n)"
  by (auto simp: toks_ok_def less_Suc_eq)

lemma toks_ok_update_Suc:
  "toks_ok q ts n \<Longrightarrow> n < length ts \<Longrightarrow> tok_ok q t \<Longrightarrow> toks_ok q (ts[n := t]) (Suc n)"
  by (auto simp: toks_ok_def less_Suc_eq nth_list_update)

lemma toks_ok_size_incr: "toks_ok q ts n \<Longrightarrow> toks_ok q (size_incr p ts) n"
  by (cases "nat (toksuper p) < length ts")
     (auto simp: toks_ok_def size_incr_def nth_list_update tok_ok_def list_update_beyond)

lemma length_size_incr [simp]: "length (size_incr p ts) = length ts"
  by (simp add: size_incr_def)

lemma parser_ok_alt:
  "parser_ok js parser ts \<longleftrightarrow>
     pos parser \<le> length js \<and> toknext parser \<le> length ts
     \<and> -1 \<le> toksuper parser \<and> toksuper parser < int (toknext parser)
     \<and> toks_ok (pos parser) ts (toknext parser)"
  by (simp add: parser_ok_def toks_ok_def)

definition step_ok :: "string \<Rightarrow> jsmn_parser \<Rightarrow> jsmntok_t list \<Rightarrow> int \<Rightarrow> jsmn_parser \<Rightarrow> pool \<Rightarrow> int \<Rightarrow> bool" where
  "step_ok js p ts n p' tk' n' \<longleftrightarrow>
     (\<exists>ts'. tk' = Some ts' \<and> length ts' = length ts \<and> parser_ok js (p'\<lparr>pos := pos p' + 1\<rparr>) ts'
           \<and> n' - int (toknext p') = n - int (toknext p))"

lemma case_open_Break:
  assumes "jsmn_case_open c p (Some ts) n = Break p' tk' n'"
  shows "toknext p < length ts \<and> n' = n + 1
     \<and> p' = p\<lparr>toknext := toknext p + 1, toksuper := int (toknext p)\<rparr>
     \<and> tk' = Some ((size_incr p (ts[toknext p := (ts ! toknext p)\<lparr>tok_start := -1, tok_end := -1, tok_size := 0\<rparr>]))
                [toknext p := (size_incr p (ts[toknext p := (ts ! toknext p)\<lparr>tok_start := -1, tok_end := -1, tok_size := 0\<rparr>]) ! toknext p)
                     \<lparr>tok_type := (if c = CHR ''{'' then JSMN_OBJECT else JSMN_ARRAY), tok_start := int (pos p)\<rparr>])"
  using assms
  by (auto simp: jsmn_case_open_def jsmn_alloc_token_def Let_def size_incr_def
      split: option.splits if_splits)

lemma case_open_ok:
  assumes "parser_ok js p ts" "pos p < length js"
    and "jsmn_case_open c p (Some ts) n = Break p' tk' n'"
  shows "step_ok js p ts n p' tk' n'"
proof -
  note B = case_open_Break [OF assms(3)]
  let ?t1 = "ts[toknext p := (ts ! toknext p)\<lparr>tok_start := -1, tok_end := -1, tok_size := 0\<rparr>]"
  let ?t2 = "size_incr p ?t1"
  let ?new = "(?t2 ! toknext p)\<lparr>tok_type := (if c = CHR ''{'' then JSMN_OBJECT else JSMN_ARRAY), tok_start := int (pos p)\<rparr>"
  from assms(1) have "toks_ok (pos p + 1) ts (toknext p)"
    by (auto simp: parser_ok_alt intro: toks_ok_mono)
  then have "toks_ok (pos p + 1) ?t1 (toknext p)"
    by (auto simp: toks_ok_def)
  then have t2: "toks_ok (pos p + 1) ?t2 (toknext p)"
    by (rule toks_ok_size_incr)
  have "toknext p < length ts" "toksuper p < int (toknext p)"
    using B assms(1) by (simp_all add: parser_ok_def)
  then have "tok_end (?t2 ! toknext p) = -1"
    by (auto simp: size_incr_def nth_list_update)
  then have "tok_ok (pos p + 1) ?new"
    by (simp add: tok_ok_def)
  moreover from B have lt: "toknext p < length ts" by blast
  ultimately have "toks_ok (pos p + 1) (?t2[toknext p := ?new]) (Suc (toknext p))"
    using t2 by (intro toks_ok_update_Suc) simp_all
  moreover from B have "p' = p\<lparr>toknext := toknext p + 1, toksuper := int (toknext p)\<rparr>"
    "tk' = Some (?t2[toknext p := ?new])" "n' = n + 1" by blast+
  ultimately show ?thesis
    using assms(1,2) lt by (simp add: step_ok_def parser_ok_alt)
qed

lemma case_close_Break:
  assumes "jsmn_case_close c p (Some ts) n = Break p' tk' n'"
  shows "\<exists>i. scan_back is_open ts (toknext p) = Some i
     \<and> tok_type (ts ! i) = (if c = CHR ''}'' then JSMN_OBJECT else JSMN_ARRAY)
     \<and> n' = n \<and> tk' = Some (ts[i := (ts ! i)\<lparr>tok_end := int (pos p) + 1\<rparr>])
     \<and> p' = p\<lparr>toksuper := (case scan_back is_open (ts[i := (ts ! i)\<lparr>tok_end := int (pos p) + 1\<rparr>]) (Suc i) of
                                 None \<Rightarrow> -1 | Some j \<Rightarrow> int j)\<rparr>"
proof (cases "scan_back is_open ts (toknext p)")
  case None
  with assms show ?thesis by (simp add: jsmn_case_close_def)
next
  case (Some i)
  show ?thesis
  proof (cases "tok_type (ts ! i) = (if c = CHR ''}'' then JSMN_OBJECT else JSMN_ARRAY)")
    case False
    with Some assms show ?thesis by (simp add: jsmn_case_close_def)
  next
    case True
    with Some assms have "Break (p\<lparr>toksuper := (case scan_back is_open (ts[i := (ts ! i)\<lparr>tok_end := int (pos p) + 1\<rparr>]) (Suc i) of
                                 None \<Rightarrow> -1 | Some j \<Rightarrow> int j)\<rparr>)
             (Some (ts[i := (ts ! i)\<lparr>tok_end := int (pos p) + 1\<rparr>])) n = Break p' tk' n'"
      by (simp add: jsmn_case_close_def Let_def)
    then have "p' = p\<lparr>toksuper := (case scan_back is_open (ts[i := (ts ! i)\<lparr>tok_end := int (pos p) + 1\<rparr>]) (Suc i) of
                                 None \<Rightarrow> -1 | Some j \<Rightarrow> int j)\<rparr>"
      "tk' = Some (ts[i := (ts ! i)\<lparr>tok_end := int (pos p) + 1\<rparr>])" "n' = n"
      by simp_all
    with Some True show ?thesis by blast
  qed
qed

lemma case_close_ok:
  assumes "parser_ok js p ts" "pos p < length js"
    and "jsmn_case_close c p (Some ts) n = Break p' tk' n'"
  shows "step_ok js p ts n p' tk' n'"
proof -
  from case_close_Break [OF assms(3)] obtain i where i: "scan_back is_open ts (toknext p) = Some i"
    and res: "n' = n" "tk' = Some (ts[i := (ts ! i)\<lparr>tok_end := int (pos p) + 1\<rparr>])"
      "p' = p\<lparr>toksuper := (case scan_back is_open (ts[i := (ts ! i)\<lparr>tok_end := int (pos p) + 1\<rparr>]) (Suc i) of
                                 None \<Rightarrow> -1 | Some j \<Rightarrow> int j)\<rparr>"
    by blast
  let ?ts = "ts[i := (ts ! i)\<lparr>tok_end := int (pos p) + 1\<rparr>]"
  let ?sup = "case scan_back is_open ?ts (Suc i) of None \<Rightarrow> -1 | Some j \<Rightarrow> int j"
  from scan_back_Some [OF i(1)] have il: "i < toknext p" and io: "is_open (ts ! i)" by auto
  have sup: "-1 \<le> ?sup \<and> ?sup < int (toknext p)"
    using il by (auto split: option.splits dest!: scan_back_Some)
  from assms(1) have ok: "toks_ok (pos p + 1) ts (toknext p)"
    by (auto simp: parser_ok_alt intro: toks_ok_mono)
  with il have "tok_ok (pos p + 1) (ts ! i)" by (simp add: toks_ok_def)
  then have "tok_ok (pos p + 1) ((ts ! i)\<lparr>tok_end := int (pos p) + 1\<rparr>)"
    by (simp add: tok_ok_def)
  with ok have "toks_ok (pos p + 1) ?ts (toknext p)"
    by (rule toks_ok_update)
  with assms(1,2) sup res show ?thesis
    by (simp add: step_ok_def parser_ok_alt)
qed

lemma jsmn_parse_string_loop_lt: "jsmn_parse_string_loop js p = Inr q \<Longrightarrow> q < length js \<and> js ! q = quote"
proof (induction js p rule: jsmn_parse_string_loop.induct)
  case (1 js p)
  from "1.prems" have inb: "p < length js" "js ! p \<noteq> NUL"
    by (auto simp: jsmn_parse_string_loop.simps [of js p] split: if_splits)
  show ?case
  proof (cases "js ! p = quote")
    case True
    with inb "1.prems" show ?thesis
      by (simp add: jsmn_parse_string_loop.simps [of js p])
  next
    case nq: False
    show ?thesis
    proof (cases "js ! p = backslash \<and> p + 1 < length js")
      case False
      with nq inb "1.prems" have "jsmn_parse_string_loop js (p + 1) = Inr q"
        by (auto simp: jsmn_parse_string_loop.simps [of js p] split: if_splits)
      with "1.IH"(3) inb nq False show ?thesis by blast
    next
      case bs: True
      show ?thesis
      proof (cases "simple_escape (js ! (p + 1))")
        case True
        with nq inb bs "1.prems" have "jsmn_parse_string_loop js (p + 2) = Inr q"
          by (auto simp: jsmn_parse_string_loop.simps [of js p] split: if_splits)
        with "1.IH"(1) inb nq bs True show ?thesis by blast
      next
        case False
        with nq inb bs "1.prems" obtain r where r: "js ! (p + 1) = CHR ''u''"
            "jsmn_hex_loop 4 js (p + 2) = Some r" "jsmn_parse_string_loop js (r - 1 + 1) = Inr q"
          by (auto simp: jsmn_parse_string_loop.simps [of js p] split: if_splits option.splits)
        with "1.IH"(2) inb nq bs False show ?thesis by blast
      qed
    qed
  qed
qed

lemma jsmn_fill_token_eq:
  "jsmn_fill_token (t :: jsmntok_t) ty s e = \<lparr>tok_type = ty, tok_start = s, tok_end = e, tok_size = 0\<rparr>"
  by (cases t) (simp add: jsmn_fill_token_def)

lemma jsmn_parse_string_Inr:
  assumes "jsmn_parse_string p js (Some ts) = (Inr u, p', tk')"
  shows "\<exists>q. jsmn_parse_string_loop js (pos p + 1) = Inr q \<and> toknext p < length ts
     \<and> p' = p\<lparr>pos := q, toknext := toknext p + 1\<rparr>
     \<and> tk' = Some (ts[toknext p := \<lparr>tok_type = JSMN_STRING, tok_start = int (pos p) + 1,
                                     tok_end = int q, tok_size = 0\<rparr>])"
  using assms
  by (auto simp: jsmn_parse_string_def jsmn_alloc_token_def jsmn_fill_token_eq Let_def
      split: sum.splits option.splits if_splits)

lemma case_string_ok:
  assumes "parser_ok js p ts" "pos p < length js"
    and "jsmn_case_string js p (Some ts) n = Break p' tk' n'"
  shows "step_ok js p ts n p' tk' n'"
proof -
  from assms(3) obtain p1 tk1 u where s: "jsmn_parse_string p js (Some ts) = (Inr u, p1, tk1)"
    and res: "p' = p1" "tk' = map_option (size_incr p1) tk1" "n' = n + 1"
    by (auto simp: jsmn_case_string_def split: sum.splits prod.splits)
  from jsmn_parse_string_Inr [OF s] obtain q where q: "jsmn_parse_string_loop js (pos p + 1) = Inr q"
    and r1: "toknext p < length ts" "p1 = p\<lparr>pos := q, toknext := toknext p + 1\<rparr>"
      "tk1 = Some (ts[toknext p := \<lparr>tok_type = JSMN_STRING, tok_start = int (pos p) + 1,
                                     tok_end = int q, tok_size = 0\<rparr>])"
    by blast
  from jsmn_parse_string_loop_ge [OF q] have ge: "pos p + 1 \<le> q" .
  from jsmn_parse_string_loop_lt [OF q] have lt: "q < length js" by simp
  let ?new = "\<lparr>tok_type = JSMN_STRING, tok_start = int (pos p) + 1, tok_end = int q, tok_size = 0\<rparr>"
  from assms(1) ge have "toks_ok (q + 1) ts (toknext p)"
    by (auto simp: parser_ok_alt intro: toks_ok_mono)
  moreover have "tok_ok (q + 1) ?new" using ge by (simp add: tok_ok_def)
  ultimately have "toks_ok (q + 1) (ts[toknext p := ?new]) (Suc (toknext p))"
    using r1(1) by (intro toks_ok_update_Suc)
  then have "toks_ok (q + 1) (size_incr p1 (ts[toknext p := ?new])) (Suc (toknext p))"
    by (rule toks_ok_size_incr)
  with assms(1) res r1 lt show ?thesis
    by (auto simp: step_ok_def parser_ok_alt)
qed

lemma jsmn_parse_primitive_loop_le:
  "jsmn_parse_primitive_loop js p = Some q \<Longrightarrow> p \<le> length js \<Longrightarrow> q \<le> length js"
proof (induction js p rule: jsmn_parse_primitive_loop.induct)
  case (1 js p)
  show ?case
  proof (cases "p < length js \<and> js ! p \<noteq> NUL \<and> \<not> prim_delim (js ! p)")
    case True
    with "1.prems" have "jsmn_parse_primitive_loop js (p + 1) = Some q"
      and "\<not> ((of_char (js ! p) :: nat) < 32 \<or> (of_char (js ! p) :: nat) \<ge> 127)"
      by (auto simp: jsmn_parse_primitive_loop.simps [of js p] split: if_splits)
    with True "1.IH" show ?thesis by simp
  next
    case False
    with "1.prems" have "q = p"
      by (auto simp: jsmn_parse_primitive_loop.simps [of js p] split: if_splits)
    with "1.prems" show ?thesis by simp
  qed
qed

lemma jsmn_parse_primitive_Inr:
  assumes "jsmn_parse_primitive p js (Some ts) = (Inr u, p', tk')"
  shows "\<exists>q. jsmn_parse_primitive_loop js (pos p) = Some q \<and> toknext p < length ts
     \<and> p' = p\<lparr>pos := q - 1, toknext := toknext p + 1\<rparr>
     \<and> tk' = Some (ts[toknext p := \<lparr>tok_type = JSMN_PRIMITIVE, tok_start = int (pos p),
                                     tok_end = int q, tok_size = 0\<rparr>])"
  using assms
  by (auto simp: jsmn_parse_primitive_def jsmn_alloc_token_def jsmn_fill_token_eq Let_def
      split: sum.splits option.splits if_splits)

lemma case_primitive_ok:
  assumes "parser_ok js p ts" "pos p < length js"
    and "jsmn_case_primitive js p (Some ts) n = Break p' tk' n'"
  shows "step_ok js p ts n p' tk' n'"
proof -
  from assms(3) obtain p1 tk1 u where s: "jsmn_parse_primitive p js (Some ts) = (Inr u, p1, tk1)"
    and res: "p' = p1" "tk' = map_option (size_incr p1) tk1" "n' = n + 1"
    by (auto simp: jsmn_case_primitive_def split: sum.splits prod.splits)
  from jsmn_parse_primitive_Inr [OF s] obtain q where q: "jsmn_parse_primitive_loop js (pos p) = Some q"
    and r1: "toknext p < length ts" "p1 = p\<lparr>pos := q - 1, toknext := toknext p + 1\<rparr>"
      "tk1 = Some (ts[toknext p := \<lparr>tok_type = JSMN_PRIMITIVE, tok_start = int (pos p),
                                     tok_end = int q, tok_size = 0\<rparr>])"
    by blast
  from jsmn_parse_primitive_loop_ge [OF q] have ge: "pos p \<le> q" .
  from jsmn_parse_primitive_loop_le [OF q] assms(2) have le: "q \<le> length js" by simp
  let ?new = "\<lparr>tok_type = JSMN_PRIMITIVE, tok_start = int (pos p), tok_end = int q, tok_size = 0\<rparr>"
  from ge have "pos p \<le> q - 1 + 1" by arith
  with assms(1) have "toks_ok (q - 1 + 1) ts (toknext p)"
    by (auto simp: parser_ok_alt intro: toks_ok_mono)
  moreover have "tok_ok (q - 1 + 1) ?new" using ge unfolding tok_ok_def by simp arith
  ultimately have "toks_ok (q - 1 + 1) (ts[toknext p := ?new]) (Suc (toknext p))"
    using r1(1) by (intro toks_ok_update_Suc)
  then have "toks_ok (q - 1 + 1) (size_incr p1 (ts[toknext p := ?new])) (Suc (toknext p))"
    by (rule toks_ok_size_incr)
  moreover from le assms(2) have "q - 1 + 1 \<le> length js" by arith
  ultimately show ?thesis using assms(1) res r1
    by (simp add: step_ok_def parser_ok_alt)
qed

lemma case_comma_ok:
  assumes "parser_ok js p ts" "pos p < length js"
    and "jsmn_case_comma p (Some ts) n = Break p' tk' n'"
  shows "step_ok js p ts n p' tk' n'"
proof -
  from assms(3) have res: "tk' = Some ts" "n' = n" "pos p' = pos p" "toknext p' = toknext p"
    and sup: "toksuper p' = toksuper p
        \<or> (\<exists>i. scan_back (\<lambda>t. is_container t \<and> is_open t) ts (toknext p) = Some i \<and> toksuper p' = int i)"
    by (auto simp: jsmn_case_comma_def split: option.splits if_splits)
  from sup assms(1) have "-1 \<le> toksuper p' \<and> toksuper p' < int (toknext p)"
    by (auto simp: parser_ok_def dest!: scan_back_Some)
  with assms(1,2) res show ?thesis
    by (auto simp: step_ok_def parser_ok_alt intro: toks_ok_mono)
qed

lemma jsmn_parse_switch_ok:
  assumes "parser_ok js p ts" "pos p < length js"
    and "jsmn_parse_switch js p (Some ts) n = Break p' tk' n'"
  shows "step_ok js p ts n p' tk' n'"
proof -
  have plain: "step_ok js p ts n p (Some ts) n"
    using assms(1,2) by (auto simp: step_ok_def parser_ok_alt intro: toks_ok_mono)
  have colon0: "step_ok js p ts n (p\<lparr>toksuper := int (toknext p) - 1\<rparr>) (Some ts) n"
    using assms(1,2) by (auto simp: step_ok_def parser_ok_alt intro: toks_ok_mono)
  let ?c = "js ! pos p"
  consider (op) "?c = CHR ''{'' \<or> ?c = CHR ''[''"
    | (cl) "?c = CHR ''}'' \<or> ?c = CHR '']''"
    | (str) "?c = quote"
    | (sp) "is_space ?c"
    | (colon) "?c = CHR '':''"
    | (comma) "?c = CHR '',''"
    | (prim) "\<not> (?c = CHR ''{'' \<or> ?c = CHR ''['')" "\<not> (?c = CHR ''}'' \<or> ?c = CHR '']'')"
        "?c \<noteq> quote" "\<not> is_space ?c" "?c \<noteq> CHR '':''" "?c \<noteq> CHR '',''"
    by blast
  then show ?thesis
  proof cases
    case op
    with assms(3) have "jsmn_case_open ?c p (Some ts) n = Break p' tk' n'"
      by (auto simp: jsmn_parse_switch_def Let_def)
    then show ?thesis by (rule case_open_ok [OF assms(1,2)])
  next
    case cl
    with assms(3) have "jsmn_case_close ?c p (Some ts) n = Break p' tk' n'"
      by (auto simp: jsmn_parse_switch_def Let_def)
    then show ?thesis by (rule case_close_ok [OF assms(1,2)])
  next
    case str
    with assms(3) have "jsmn_case_string js p (Some ts) n = Break p' tk' n'"
      by (auto simp: jsmn_parse_switch_def Let_def quote_def)
    then show ?thesis by (rule case_string_ok [OF assms(1,2)])
  next
    case sp
    with assms(3) have "Break p (Some ts) n = Break p' tk' n'"
      by (auto simp: jsmn_parse_switch_def Let_def quote_def is_space_def)
    with plain show ?thesis by simp
  next
    case colon
    with assms(3) have "jsmn_case_colon p (Some ts) n = Break p' tk' n'"
      by (auto simp: jsmn_parse_switch_def Let_def quote_def is_space_def)
    with colon0 show ?thesis by (auto simp: jsmn_case_colon_def)
  next
    case comma
    with assms(3) have "jsmn_case_comma p (Some ts) n = Break p' tk' n'"
      by (auto simp: jsmn_parse_switch_def Let_def quote_def is_space_def)
    then show ?thesis by (rule case_comma_ok [OF assms(1,2)])
  next
    case prim
    with assms(3) have "jsmn_case_primitive js p (Some ts) n = Break p' tk' n'"
      by (simp add: jsmn_parse_switch_def Let_def)
    then show ?thesis by (rule case_primitive_ok [OF assms(1,2)])
  qed
qed

lemma jsmn_parse_string_Inl:
  "jsmn_parse_string p js tk = (Inl e, p', tk') \<Longrightarrow> p' = p \<and> tk' = tk"
  by (auto simp: jsmn_parse_string_def Let_def split: sum.splits option.splits prod.splits)

lemma jsmn_parse_primitive_Inl:
  "jsmn_parse_primitive p js tk = (Inl e, p', tk') \<Longrightarrow> p' = p \<and> tk' = tk"
  by (auto simp: jsmn_parse_primitive_def Let_def split: sum.splits option.splits prod.splits)

lemma jsmn_parse_switch_Return:
  assumes "jsmn_parse_switch js p tk n = Return e p' tk'"
  shows "p' = p \<and> tk' = tk"
proof -
  have str: "jsmn_case_string js p tk n = Return e p' tk' \<Longrightarrow> p' = p \<and> tk' = tk"
    by (auto simp: jsmn_case_string_def split: prod.splits sum.splits dest: jsmn_parse_string_Inl)
  have prim: "jsmn_case_primitive js p tk n = Return e p' tk' \<Longrightarrow> p' = p \<and> tk' = tk"
    by (auto simp: jsmn_case_primitive_def split: prod.splits sum.splits dest: jsmn_parse_primitive_Inl)
  have op: "jsmn_case_open c p tk n = Return e p' tk' \<Longrightarrow> p' = p \<and> tk' = tk" for c
    by (auto simp: jsmn_case_open_def Let_def split: option.splits)
  have cl: "jsmn_case_close c p tk n = Return e p' tk' \<Longrightarrow> p' = p \<and> tk' = tk" for c
    by (cases tk; cases "scan_back is_open (the tk) (toknext p)")
       (auto simp: jsmn_case_close_def Let_def split: if_splits)
  have comma: "jsmn_case_comma p tk n \<noteq> Return e p' tk'"
    by (auto simp: jsmn_case_comma_def split: option.splits)
  from assms show ?thesis
    unfolding jsmn_parse_switch_def Let_def jsmn_case_colon_def
    by (auto split: if_splits dest: str prim op cl simp: comma)
qed

lemma jsmn_parse_loop_ok:
  assumes "parser_ok js p ts"
    and "jsmn_parse_loop js p tk n = (r, p', tk')" and "tk = Some ts"
  shows "\<exists>ts'. tk' = Some ts' \<and> length ts' = length ts
     \<and> (\<forall>m. r = Inr m \<longrightarrow> parser_ok js p' ts' \<and> m - int (toknext p') = n - int (toknext p))"
  using assms
proof (induction js p tk n arbitrary: ts rule: jsmn_parse_loop.induct)
  case (1 js p tk n)
  show ?case
  proof (cases "pos p < length js \<and> js ! pos p \<noteq> NUL")
    case False
    with "1.prems" show ?thesis
      by (auto simp: jsmn_parse_loop.simps [of js p])
  next
    case True
    show ?thesis
    proof (cases "jsmn_parse_switch js p tk n")
      case (Return e p1 tk1)
      with "1.prems"(2) True have "r = Inl e" "tk' = tk1"
        by (simp_all add: jsmn_parse_loop.simps [of js p])
      moreover from jsmn_parse_switch_Return [OF Return] have "tk1 = tk" by simp
      ultimately show ?thesis using "1.prems"(3) by simp
    next
      case (Break p1 tk1 n1)
      from jsmn_parse_switch_ok [OF "1.prems"(1), of n p1 tk1 n1] Break True "1.prems"(3)
      obtain ts1 where ts1: "tk1 = Some ts1" "length ts1 = length ts"
          "parser_ok js (p1\<lparr>pos := pos p1 + 1\<rparr>) ts1" "n1 - int (toknext p1) = n - int (toknext p)"
        by (auto simp: step_ok_def)
      from "1.prems"(2) True Break have "jsmn_parse_loop js (p1\<lparr>pos := pos p1 + 1\<rparr>) tk1 n1 = (r, p', tk')"
        by (simp add: jsmn_parse_loop.simps [of js p])
      from "1.IH" [OF True Break ts1(3) this ts1(1)] ts1 show ?thesis
        by auto
    qed
  qed
qed


lemma jsmn_parse_ok:
  assumes "jsmn_parse jsmn_init js (Some ts) = (r, p', tk')"
  shows "\<exists>ts'. tk' = Some ts' \<and> length ts' = length ts
     \<and> (\<forall>m. r = Inr m \<longrightarrow> parser_ok js p' ts' \<and> m = int (toknext p')
            \<and> (\<forall>i < toknext p'. \<not> is_open (ts' ! i)))"
proof -
  obtain r0 p0 tk0 where l: "jsmn_parse_loop js jsmn_init (Some ts) 0 = (r0, p0, tk0)"
    by (metis prod_cases3)
  from jsmn_parse_loop_ok [OF parser_ok_init l refl] obtain ts0 where
    ts0: "tk0 = Some ts0" "length ts0 = length ts"
      "\<forall>m. r0 = Inr m \<longrightarrow> parser_ok js p0 ts0 \<and> m - int (toknext p0) = 0"
    by (auto simp: jsmn_init_def)
  from assms l ts0(1) have p': "p' = p0" "tk' = tk0"
    by (auto simp: jsmn_parse_def jsmn_init_def split: sum.splits option.splits)
  have "parser_ok js p0 ts0 \<and> m = int (toknext p0) \<and> (\<forall>i < toknext p0. \<not> is_open (ts0 ! i))"
    if "r = Inr m" for m
  proof -
    from that assms l ts0(1) have "r0 = Inr m" "scan_back is_open ts0 (toknext p0) = None"
      by (auto simp: jsmn_parse_def jsmn_init_def split: sum.splits option.splits)
    with ts0(3) show ?thesis by (simp add: scan_back_None)
  qed
  with p' ts0(1,2) show ?thesis by blast
qed


section \<open>Facts about the string scanner\<close>

lemma is_hex_not_NUL: "is_hex c \<Longrightarrow> c \<noteq> NUL"
  by (auto simp: is_hex_def NUL_def Let_def)

lemma special_chars [simp]:
  "backslash \<noteq> quote" "backslash \<noteq> NUL" "quote \<noteq> NUL" "quote \<noteq> backslash"
  "NUL \<noteq> backslash" "NUL \<noteq> quote" "\<not> simple_escape (CHR ''u'')"
  by (simp_all add: backslash_def quote_def NUL_def simple_escape_def)

lemma nth_mid [simp]: "(pre @ c # post) ! length pre = c"
  by (simp add: nth_append)

lemma nth_mid1 [simp]: "(pre @ c # d # post) ! Suc (length pre) = d"
  by (simp add: nth_append)

lemma string_loop_plain:
  assumes "c \<noteq> quote" "c \<noteq> backslash" "c \<noteq> NUL"
  shows "jsmn_parse_string_loop (pre @ c # post) (length pre)
       = jsmn_parse_string_loop (pre @ c # post) (length pre + 1)"
  using assms by (simp add: jsmn_parse_string_loop.simps [of _ "length pre"])

lemma string_loop_esc:
  assumes "simple_escape e"
  shows "jsmn_parse_string_loop (pre @ backslash # e # post) (length pre)
       = jsmn_parse_string_loop (pre @ backslash # e # post) (length pre + 2)"
  using assms
  by (simp add: jsmn_parse_string_loop.simps [of _ "length pre"])

lemma hex_loop_run:
  "list_all is_hex hs \<Longrightarrow> length hs \<le> k \<Longrightarrow>
   jsmn_hex_loop k (pre @ hs @ post) (length pre)
     = jsmn_hex_loop (k - length hs) (pre @ hs @ post) (length pre + length hs)"
proof (induction hs arbitrary: pre k)
  case Nil
  then show ?case by simp
next
  case (Cons h hs)
  then obtain j where k: "k = Suc j" by (cases k) auto
  from Cons.prems have h: "is_hex h" "h \<noteq> NUL" by (auto dest: is_hex_not_NUL)
  from Cons.prems k have "jsmn_hex_loop j ((pre @ [h]) @ hs @ post) (length (pre @ [h]))
     = jsmn_hex_loop (j - length hs) ((pre @ [h]) @ hs @ post) (length (pre @ [h]) + length hs)"
    by (intro Cons.IH) auto
  with h k show ?case by simp
qed

lemma string_loop_uni:
  assumes "is_hex h1" "is_hex h2" "is_hex h3" "is_hex h4"
  shows "jsmn_parse_string_loop (pre @ backslash # CHR ''u'' # h1 # h2 # h3 # h4 # post) (length pre)
       = jsmn_parse_string_loop (pre @ backslash # CHR ''u'' # h1 # h2 # h3 # h4 # post) (length pre + 6)"
proof -
  let ?js = "pre @ backslash # CHR ''u'' # h1 # h2 # h3 # h4 # post"
  have "jsmn_hex_loop 4 ((pre @ [backslash, CHR ''u'']) @ [h1, h2, h3, h4] @ post) (length (pre @ [backslash, CHR ''u'']))
      = jsmn_hex_loop (4 - length [h1, h2, h3, h4]) ((pre @ [backslash, CHR ''u'']) @ [h1, h2, h3, h4] @ post)
          (length (pre @ [backslash, CHR ''u'']) + length [h1, h2, h3, h4])"
    using assms by (intro hex_loop_run) auto
  then have "jsmn_hex_loop 4 ?js (length pre + 2) = Some (length pre + 6)" by simp
  moreover have "\<not> simple_escape (CHR ''u'')" by (simp add: simple_escape_def quote_def backslash_def)
  ultimately show ?thesis
    by (simp add: jsmn_parse_string_loop.simps [of _ "length pre"] add.commute)
qed

lemma string_loop_body:
  "str_body body \<Longrightarrow>
   jsmn_parse_string_loop (pre @ body @ post) (length pre)
     = jsmn_parse_string_loop (pre @ body @ post) (length pre + length body)"
proof (induction body arbitrary: pre rule: str_body.induct)
  case Nil
  show ?case by simp
next
  case (Plain c cs)
  from Plain.IH [of "pre @ [c]"] string_loop_plain [OF Plain.hyps(1-3), of pre "cs @ post"]
  show ?case by simp
next
  case (Esc e cs)
  from Esc.IH [of "pre @ [backslash, e]"] string_loop_esc [OF Esc.hyps(1), of pre "cs @ post"]
  show ?case by simp
next
  case (Uni h1 h2 h3 h4 cs)
  from Uni.IH [of "pre @ [backslash, CHR ''u'', h1, h2, h3, h4]"]
    string_loop_uni [OF Uni.hyps(1-4), of pre "cs @ post"]
  show ?case by (simp add: eval_nat_numeral)
qed

lemma string_loop_closed:
  assumes "str_body body"
  shows "jsmn_parse_string_loop (pre @ body @ quote # post) (length pre) = Inr (length pre + length body)"
proof -
  have "jsmn_parse_string_loop ((pre @ body) @ quote # post) (length (pre @ body)) = Inr (length (pre @ body))"
    by (simp only: jsmn_parse_string_loop.simps [of _ "length (pre @ body)"] nth_mid) simp
  with string_loop_body [OF assms, of pre "quote # post"] show ?thesis by simp
qed

lemma string_loop_end: "length js \<le> p \<Longrightarrow> jsmn_parse_string_loop js p = Inl JSMN_ERROR_PART"
  by (simp add: jsmn_parse_string_loop.simps [of js p])

lemma string_loop_NUL: "p < length js \<Longrightarrow> js ! p = NUL \<Longrightarrow> jsmn_parse_string_loop js p = Inl JSMN_ERROR_PART"
  by (simp add: jsmn_parse_string_loop.simps [of js p])

lemma string_loop_short_hex:
  assumes "list_all is_hex hs" "length hs < 4"
  shows "(rest = [] \<or> hd rest = NUL \<longrightarrow>
           jsmn_parse_string_loop (pre @ backslash # CHR ''u'' # hs @ rest) (length pre)
             = Inl JSMN_ERROR_PART)
       \<and> (rest \<noteq> [] \<and> hd rest \<noteq> NUL \<and> \<not> is_hex (hd rest) \<longrightarrow>
           jsmn_parse_string_loop (pre @ backslash # CHR ''u'' # hs @ rest) (length pre)
             = Inl JSMN_ERROR_INVAL)"
proof -
  let ?js = "pre @ backslash # CHR ''u'' # hs @ rest"
  let ?q = "length pre + 2 + length hs"
  obtain j where j: "4 - length hs = Suc j" using assms(2) by (cases "4 - length hs") auto
  have "jsmn_hex_loop 4 ((pre @ [backslash, CHR ''u'']) @ hs @ rest) (length (pre @ [backslash, CHR ''u'']))
      = jsmn_hex_loop (4 - length hs) ((pre @ [backslash, CHR ''u'']) @ hs @ rest)
          (length (pre @ [backslash, CHR ''u'']) + length hs)"
    using assms by (intro hex_loop_run) auto
  with j have run: "jsmn_hex_loop 4 ?js (length pre + 2) = jsmn_hex_loop (Suc j) ?js ?q"
    by simp
  have at: "?js ! ?q = hd rest" if "rest \<noteq> []"
  proof -
    have "((pre @ backslash # CHR ''u'' # hs) @ rest) ! (length (pre @ backslash # CHR ''u'' # hs) + 0) = rest ! 0"
      by (rule nth_append_length_plus)
    with that show ?thesis by (simp add: hd_conv_nth)
  qed
  have len: "?q < length ?js \<longleftrightarrow> rest \<noteq> []" by auto
  have unfold: "jsmn_parse_string_loop ?js (length pre)
      = (case jsmn_hex_loop 4 ?js (length pre + 2) of None \<Rightarrow> Inl JSMN_ERROR_INVAL
         | Some q \<Rightarrow> jsmn_parse_string_loop ?js (q - 1 + 1))"
    by (simp add: jsmn_parse_string_loop.simps [of _ "length pre"])
  show ?thesis
  proof (cases "rest = [] \<or> hd rest = NUL")
    case True
    have stop: "\<not> (?q < length ?js \<and> ?js ! ?q \<noteq> NUL)"
    proof (cases "rest = []")
      case True
      with len show ?thesis by blast
    next
      case False
      with at \<open>rest = [] \<or> hd rest = NUL\<close> have "?js ! ?q = NUL" by metis
      then show ?thesis by blast
    qed
    then have "jsmn_hex_loop (Suc j) ?js ?q = Some ?q"
      by (simp only: jsmn_hex_loop.simps if_False simp_thms)
    moreover from stop have "jsmn_parse_string_loop ?js ?q = Inl JSMN_ERROR_PART"
      by (subst jsmn_parse_string_loop.simps) (simp only: if_False simp_thms)
    ultimately have "jsmn_parse_string_loop ?js (length pre) = Inl JSMN_ERROR_PART"
      using unfold run by (simp del: jsmn_hex_loop.simps)
    with True show ?thesis by blast
  next
    case False
    show ?thesis
    proof (cases "is_hex (hd rest)")
      case True
      with False show ?thesis by blast
    next
      case nh: False
      from False have ne: "rest \<noteq> []" "hd rest \<noteq> NUL" by blast+
      from at [OF ne(1)] have eq: "?js ! ?q = hd rest" .
      from ne(1) len have "?q < length ?js" by blast
      with eq ne(2) have "?q < length ?js \<and> ?js ! ?q \<noteq> NUL" by metis
      moreover from eq nh have "\<not> is_hex (?js ! ?q)" by metis
      ultimately have "jsmn_hex_loop (Suc j) ?js ?q = None"
        by (simp only: jsmn_hex_loop.simps if_True if_False simp_thms)
      with unfold run have "jsmn_parse_string_loop ?js (length pre) = Inl JSMN_ERROR_INVAL"
        by (simp del: jsmn_hex_loop.simps)
      with False show ?thesis by blast
    qed
  qed
qed

lemma string_loop_last_backslash:
  "jsmn_parse_string_loop (pre @ [backslash]) (length pre) = Inl JSMN_ERROR_PART"
proof -
  have "jsmn_parse_string_loop (pre @ [backslash]) (length pre)
      = jsmn_parse_string_loop (pre @ [backslash]) (length pre + 1)"
    by (simp add: jsmn_parse_string_loop.simps [of _ "length pre"])
  then show ?thesis by (simp add: string_loop_end)
qed

lemma string_loop_open:
  assumes "str_body body" "open_tail t"
  shows "jsmn_parse_string_loop (pre @ body @ t) (length pre) = Inl JSMN_ERROR_PART"
proof -
  have "jsmn_parse_string_loop ((pre @ body) @ t) (length (pre @ body)) = Inl JSMN_ERROR_PART"
    using assms(2) unfolding open_tail_def
  proof (elim disjE exE conjE)
    assume "t = []"
    then show ?thesis by (simp add: string_loop_end)
  next
    assume "t = [backslash]"
    then show ?thesis by (simp only: string_loop_last_backslash)
  next
    fix hs assume "t = backslash # CHR ''u'' # hs" "length hs < 4" "list_all is_hex hs"
    with string_loop_short_hex [where hs = hs and pre = "pre @ body" and rest = "[]"]
    show ?thesis by simp
  qed
  with string_loop_body [OF assms(1), of pre t] show ?thesis by simp
qed

section \<open>Facts about the lookup helper\<close>

lemma strlen_le: "strlen s \<le> length s"
  by (simp add: strlen_def length_takeWhile_le)

lemma NUL_notin_c_str: "NUL \<notin> set (take (strlen s) s)"
proof -
  have "take (strlen s) s = takeWhile (\<lambda>c. c \<noteq> NUL) s"
    by (simp add: strlen_def takeWhile_eq_take [symmetric])
  then show ?thesis by (auto dest: set_takeWhileD)
qed

lemma strncmp_eq_take:
  assumes "n \<le> length a" "n \<le> length b" "NUL \<notin> set (take n a)" "NUL \<notin> set (take n b)"
  shows "strncmp_eq a b n \<longleftrightarrow> take n a = take n b"
  using assms
proof (induction n arbitrary: a b)
  case 0
  then show ?case by simp
next
  case (Suc n)
  then obtain x xs y ys where ab: "a = x # xs" "b = y # ys"
    by (cases a; cases b) auto
  with Suc.prems have "x \<noteq> NUL" "y \<noteq> NUL" by auto
  moreover from Suc.prems ab have "strncmp_eq xs ys n \<longleftrightarrow> take n xs = take n ys"
    by (intro Suc.IH) auto
  ultimately show ?case using ab by (auto simp: c_byte_def)
qed

lemma jsoneq_span:
  assumes "0 \<le> tok_start t" "tok_start t \<le> tok_end t" "tok_end t \<le> int (strlen json)"
  shows "jsoneq json t key = 0 \<longleftrightarrow> tok_type t = JSMN_STRING \<and> span json t = c_str key"
proof -
  let ?n = "nat (tok_end t - tok_start t)" and ?s = "nat (tok_start t)"
  have len: "?s + ?n \<le> strlen json" using assms by simp
  then have l1: "?n \<le> length (drop ?s json)"
    using strlen_le [of json] by simp
  have "take ?n (drop ?s json) = drop ?s (take (?s + ?n) json)"
    by (simp add: drop_take)
  moreover have "set (take (?s + ?n) json) \<subseteq> set (take (strlen json) json)"
    using len by (rule set_take_subset_set_take)
  ultimately have n1: "NUL \<notin> set (take ?n (drop ?s json))"
    using NUL_notin_c_str [of json] by (auto dest: in_set_dropD)
  show ?thesis
  proof (cases "int (strlen key) = tok_end t - tok_start t")
    case True
    then have k: "?n = strlen key" by simp
    have "strncmp_eq (drop ?s json) key ?n \<longleftrightarrow> take ?n (drop ?s json) = take ?n key"
      using l1 n1 k strlen_le [of key] NUL_notin_c_str [of key]
      by (intro strncmp_eq_take) simp_all
    with True k show ?thesis
      by (auto simp: jsoneq_def span_def c_str_def)
  next
    case False
    have "length (span json t) = ?n" using l1 by (simp add: span_def)
    moreover have "length (c_str key) = strlen key"
      using strlen_le [of key] by (simp add: c_str_def)
    ultimately have "span json t \<noteq> c_str key" using False assms by auto
    with False show ?thesis by (simp add: jsoneq_def)
  qed
qed

lemma find_key_Some:
  "find_key json ts key ret i = Some k \<Longrightarrow> 0 \<le> i \<Longrightarrow>
     i \<le> int k \<and> int k < ret \<and> jsoneq json (ts ! k) key = 0
     \<and> (\<forall>j. i \<le> j \<and> j < int k \<longrightarrow> jsoneq json (ts ! nat j) key \<noteq> 0)"
proof (induction json ts key ret i rule: find_key.induct)
  case (1 json ts key ret i)
  from "1.prems" have lt: "i < ret"
    by (auto simp: find_key.simps [of json ts key ret i] split: if_splits)
  show ?case
  proof (cases "jsoneq json (ts ! nat i) key = 0")
    case True
    with lt "1.prems" have "k = nat i"
      by (auto simp: find_key.simps [of json ts key ret i])
    with True lt "1.prems"(2) show ?thesis by simp
  next
    case False
    with lt "1.prems" have "find_key json ts key ret (i + 1) = Some k"
      by (auto simp: find_key.simps [of json ts key ret i])
    from "1.IH" [OF lt False this] "1.prems"(2) have
      *: "i + 1 \<le> int k" "int k < ret" "jsoneq json (ts ! k) key = 0"
        "\<forall>j. i + 1 \<le> j \<and> j < int k \<longrightarrow> jsoneq json (ts ! nat j) key \<noteq> 0"
      by auto
    have "jsoneq json (ts ! nat j) key \<noteq> 0" if "i \<le> j \<and> j < int k" for j
      using that False *(4) by (cases "j = i") auto
    with * show ?thesis by simp
  qed
qed

lemma find_key_None:
  "find_key json ts key ret i = None \<longleftrightarrow> (\<forall>j. i \<le> j \<and> j < ret \<longrightarrow> jsoneq json (ts ! nat j) key \<noteq> 0)"
proof (induction json ts key ret i rule: find_key.induct)
  case (1 json ts key ret i)
  show ?case
  proof (cases "i < ret")
    case False
    then show ?thesis by (simp add: find_key.simps [of json ts key ret i])
  next
    case lt: True
    show ?thesis
    proof (cases "jsoneq json (ts ! nat i) key = 0")
      case True
      with lt show ?thesis by (auto simp: find_key.simps [of json ts key ret i])
    next
      case False
      have "(\<forall>j. i \<le> j \<and> j < ret \<longrightarrow> jsoneq json (ts ! nat j) key \<noteq> 0)
          \<longleftrightarrow> (\<forall>j. i + 1 \<le> j \<and> j < ret \<longrightarrow> jsoneq json (ts ! nat j) key \<noteq> 0)"
      proof (intro iffI allI impI)
        fix j assume a: "\<forall>j. i + 1 \<le> j \<and> j < ret \<longrightarrow> jsoneq json (ts ! nat j) key \<noteq> 0" "i \<le> j \<and> j < ret"
        then show "jsoneq json (ts ! nat j) key \<noteq> 0" using False by (cases "j = i") auto
      qed auto
      with "1.IH" [OF lt False] lt False show ?thesis
        by (simp add: find_key.simps [of json ts key ret i])
    qed
  qed
qed

lemma block_slots_small: "unat max_tokens < 2 ^ 28 \<Longrightarrow> block_slots max_tokens = unat max_tokens"
proof -
  assume a: "unat max_tokens < 2 ^ 28"
  have "unat (sizeof_jsmntok_t * max_tokens) = (16 * unat max_tokens) mod 2 ^ 32"
    by (simp add: sizeof_jsmntok_t_def unat_word_ariths)
  also from a have "\<dots> = 16 * unat max_tokens" by simp
  finally show ?thesis by (simp add: block_slots_def sizeof_jsmntok_t_def)
qed

lemma block_slots_wrap: "block_slots max_tokens = unat max_tokens mod 2 ^ 28"
proof -
  have "unat (sizeof_jsmntok_t * max_tokens) = (16 * unat max_tokens) mod (16 * 2 ^ 28)"
    by (simp add: sizeof_jsmntok_t_def unat_word_ariths)
  also have "\<dots> = 16 * (unat max_tokens mod 2 ^ 28)"
    by (simp only: mult_mod_right)
  finally show ?thesis by (simp add: block_slots_def sizeof_jsmntok_t_def)
qed

lemma copy_value_no_mem: "copy_value json ts i False \<noteq> Returns l (Some v)"
  by (simp add: copy_value_def Let_def)

lemma get_json_value_no_mem:
  "get_json_value key json_data max_tokens tokens_mem False \<noteq> Returns l (Some v)"
  by (auto simp: get_json_value_def copy_value_no_mem split: prod.splits sum.splits option.splits)

lemma get_json_value_parsed:
  assumes "unat max_tokens < 2 ^ 28"
    and "jsmn_parse jsmn_init (take (strlen json) json) (Some (map g [0..<unat max_tokens]))
           = (Inr ret, parser, Some ts)"
  shows "get_json_value key (Some json) max_tokens (Some g) value_mem
    = (if ret < 1 \<or> tok_type (ts ! 0) \<noteq> JSMN_OBJECT then Returns [Log_root_not_object] None
       else (case find_key json ts key ret 1 of
               Some i \<Rightarrow> copy_value json ts i value_mem
             | None \<Rightarrow> Returns [Log_key_not_found] None))"
proof -
  from jsmn_parse_ok [OF assms(2)] have "parser_ok (take (strlen json) json) parser ts"
      "length ts = unat max_tokens"
    by auto
  then have "toknext parser \<le> unat max_tokens" "take (unat max_tokens) ts = ts"
    by (simp_all add: parser_ok_def)
  with assms(2) show ?thesis
    by (simp add: get_json_value_def block_slots_small [OF assms(1)] cong: option.case_cong)
qed

lemma find_key_first:
  assumes "1 \<le> i" "int i < ret" "jsoneq json (ts ! i) key = 0"
    and "\<forall>j. 1 \<le> j \<and> j < int i \<longrightarrow> jsoneq json (ts ! nat j) key \<noteq> 0"
  shows "find_key json ts key ret 1 = Some i"
proof (cases "find_key json ts key ret 1")
  case None
  then have "\<forall>j. 1 \<le> j \<and> j < ret \<longrightarrow> jsoneq json (ts ! nat j) key \<noteq> 0"
    by (simp only: find_key_None)
  from this [rule_format, of "int i"] assms(1,2,3) show ?thesis by simp
next
  case (Some k)
  from find_key_Some [OF Some] have k: "1 \<le> int k" "int k < ret" "jsoneq json (ts ! k) key = 0"
      "\<forall>j. 1 \<le> j \<and> j < int k \<longrightarrow> jsoneq json (ts ! nat j) key \<noteq> 0"
    by auto
  have "\<not> k < i"
  proof
    assume "k < i"
    with assms(4) [rule_format, of "int k"] k(1) have "jsoneq json (ts ! k) key \<noteq> 0" by simp
    with k(3) show False by simp
  qed
  moreover have "\<not> i < k"
  proof
    assume "i < k"
    with k(4) [rule_format, of "int i"] assms(1) have "jsoneq json (ts ! i) key \<noteq> 0" by simp
    with assms(3) show False by simp
  qed
  ultimately show ?thesis using Some by simp
qed


section \<open>The steps of the driver, and two runs side by side\<close>

text \<open>
  Each branch of the \<^verbatim>\<open>switch\<close> as one equation, for a null pool and for a pool; then a
  dry run (null pool) followed in step with a run on a pool, and two runs on pools that
  agree on the allocated slots.
\<close>

definition fresh_tok :: "jsmntype_t \<Rightarrow> int \<Rightarrow> int \<Rightarrow> jsmntok_t" where
  "fresh_tok ty s e = \<lparr>tok_type = ty, tok_start = s, tok_end = e, tok_size = 0\<rparr>"

lemma fresh_tok_sel [simp]:
  "tok_type (fresh_tok ty s e) = ty" "tok_start (fresh_tok ty s e) = s"
  "tok_end (fresh_tok ty s e) = e" "tok_size (fresh_tok ty s e) = 0"
  by (simp_all add: fresh_tok_def)

lemma alloc_then_set:
  "((t :: jsmntok_t)\<lparr>tok_start := -1, tok_end := -1, tok_size := 0\<rparr>)\<lparr>tok_type := ty, tok_start := s\<rparr>
     = fresh_tok ty s (-1)"
  by (cases t) (simp add: fresh_tok_def)

lemma size_incr_update_other:
  assumes "-1 \<le> toksuper p" "toksuper p < int n"
  shows "size_incr p (ts[n := x]) = (size_incr p ts)[n := x]"
proof (cases "toksuper p = -1")
  case True
  then show ?thesis by (simp add: size_incr_def)
next
  case False
  with assms have "nat (toksuper p) \<noteq> n" by linarith
  then show ?thesis
    by (simp add: size_incr_def list_update_swap [of n])
qed

lemma size_incr_parser [simp]:
  "size_incr (p\<lparr>toknext := n\<rparr>) ts = size_incr p ts"
  "size_incr (p\<lparr>pos := q\<rparr>) ts = size_incr p ts"
  by (simp_all add: size_incr_def)

lemma case_open_Some:
  assumes "-1 \<le> toksuper p" "toksuper p < int (toknext p)"
  shows "jsmn_case_open c p (Some ts) k =
     (if length ts \<le> toknext p then Return JSMN_ERROR_NOMEM p (Some ts)
      else Break (p\<lparr>toknext := toknext p + 1, toksuper := int (toknext p)\<rparr>)
             (Some ((size_incr p ts)[toknext p :=
                fresh_tok (if c = CHR ''{'' then JSMN_OBJECT else JSMN_ARRAY) (int (pos p)) (-1)]))
             (k + 1))"
proof (cases "length ts \<le> toknext p")
  case True
  then show ?thesis by (simp add: jsmn_case_open_def jsmn_alloc_token_def)
next
  case False
  let ?n = "toknext p"
  let ?a = "(ts ! ?n)\<lparr>tok_start := -1, tok_end := -1, tok_size := 0\<rparr>"
  have s: "size_incr (p\<lparr>toknext := ?n + 1\<rparr>) (ts[?n := ?a]) = (size_incr p ts)[?n := ?a]"
    using size_incr_update_other [OF assms, of ts ?a] by simp
  from False have "(size_incr p ts)[?n := ?a] ! ?n = ?a" by simp
  with False s show ?thesis
    by (simp add: jsmn_case_open_def jsmn_alloc_token_def Let_def alloc_then_set)
qed

lemma case_open_None: "jsmn_case_open c p None k = Break p None (k + 1)"
  by (simp add: jsmn_case_open_def)

lemma case_close_None: "jsmn_case_close c p None k = Break p None k"
  by (simp add: jsmn_case_close_def)

lemma case_comma_None: "jsmn_case_comma p None k = Break p None k"
  by (simp add: jsmn_case_comma_def)

lemma parser_pos_same [simp]: "p\<lparr>pos := pos p\<rparr> = (p :: jsmn_parser)"
  by (cases p) simp

lemma jsmn_fill_token_fresh: "jsmn_fill_token (t :: jsmntok_t) ty s e = fresh_tok ty s e"
  by (cases t) (simp add: jsmn_fill_token_def fresh_tok_def)

lemma case_string_Some:
  "jsmn_case_string js p (Some ts) k =
     (case jsmn_parse_string_loop js (pos p + 1) of
        Inl e \<Rightarrow> Return e p (Some ts)
      | Inr q \<Rightarrow>
          if length ts \<le> toknext p then Return JSMN_ERROR_NOMEM p (Some ts)
          else Break (p\<lparr>pos := q, toknext := toknext p + 1\<rparr>)
                 (Some (size_incr p (ts[toknext p := fresh_tok JSMN_STRING (int (pos p) + 1) (int q)])))
                 (k + 1))"
  by (simp add: jsmn_case_string_def jsmn_parse_string_def jsmn_alloc_token_def Let_def
      jsmn_fill_token_fresh split: sum.splits)

lemma case_string_None:
  "jsmn_case_string js p None k =
     (case jsmn_parse_string_loop js (pos p + 1) of
        Inl e \<Rightarrow> Return e p None
      | Inr q \<Rightarrow> Break (p\<lparr>pos := q\<rparr>) None (k + 1))"
  by (simp add: jsmn_case_string_def jsmn_parse_string_def Let_def split: sum.splits)

lemma case_primitive_Some:
  "jsmn_case_primitive js p (Some ts) k =
     (case jsmn_parse_primitive_loop js (pos p) of
        None \<Rightarrow> Return JSMN_ERROR_INVAL p (Some ts)
      | Some q \<Rightarrow>
          if length ts \<le> toknext p then Return JSMN_ERROR_NOMEM p (Some ts)
          else Break (p\<lparr>pos := q - 1, toknext := toknext p + 1\<rparr>)
                 (Some (size_incr p (ts[toknext p := fresh_tok JSMN_PRIMITIVE (int (pos p)) (int q)])))
                 (k + 1))"
  by (simp add: jsmn_case_primitive_def jsmn_parse_primitive_def jsmn_alloc_token_def Let_def
      jsmn_fill_token_fresh split: option.splits)

lemma case_primitive_None:
  "jsmn_case_primitive js p None k =
     (case jsmn_parse_primitive_loop js (pos p) of
        None \<Rightarrow> Return JSMN_ERROR_INVAL p None
      | Some q \<Rightarrow> Break (p\<lparr>pos := q - 1\<rparr>) None (k + 1))"
  by (simp add: jsmn_case_primitive_def jsmn_parse_primitive_def Let_def split: option.splits)


lemma switch_cases [case_names op cl str sp colon comma prim]:
  obtains
    (op) "js ! pos p = CHR ''{'' \<or> js ! pos p = CHR ''[''"
      "\<And>tk k. jsmn_parse_switch js p tk k = jsmn_case_open (js ! pos p) p tk k"
  | (cl) "js ! pos p = CHR ''}'' \<or> js ! pos p = CHR '']''"
      "\<And>tk k. jsmn_parse_switch js p tk k = jsmn_case_close (js ! pos p) p tk k"
  | (str) "js ! pos p = quote"
      "\<And>tk k. jsmn_parse_switch js p tk k = jsmn_case_string js p tk k"
  | (sp) "is_space (js ! pos p)"
      "\<And>tk k. jsmn_parse_switch js p tk k = Break p tk k"
  | (colon) "js ! pos p = CHR '':''"
      "\<And>tk k. jsmn_parse_switch js p tk k = jsmn_case_colon p tk k"
  | (comma) "js ! pos p = CHR '',''"
      "\<And>tk k. jsmn_parse_switch js p tk k = jsmn_case_comma p tk k"
  | (prim) "\<not> prim_delim (js ! pos p)" "js ! pos p \<noteq> quote"
      "js ! pos p \<noteq> CHR ''{''" "js ! pos p \<noteq> CHR ''[''"
      "\<And>tk k. jsmn_parse_switch js p tk k = jsmn_case_primitive js p tk k"
proof -
  let ?c = "js ! pos p"
  consider (a) "?c = CHR ''{'' \<or> ?c = CHR ''[''"
    | (b) "?c = CHR ''}'' \<or> ?c = CHR '']''"
    | (c) "?c = quote"
    | (d) "is_space ?c"
    | (e) "?c = CHR '':''"
    | (f) "?c = CHR '',''"
    | (g) "\<not> (?c = CHR ''{'' \<or> ?c = CHR ''['')" "\<not> (?c = CHR ''}'' \<or> ?c = CHR '']'')"
        "?c \<noteq> quote" "\<not> is_space ?c" "?c \<noteq> CHR '':''" "?c \<noteq> CHR '',''"
    by blast
  then show ?thesis
  proof cases
    case a
    then show ?thesis by (intro op) (auto simp: jsmn_parse_switch_def Let_def)
  next
    case b
    then show ?thesis by (intro cl) (auto simp: jsmn_parse_switch_def Let_def)
  next
    case c
    then show ?thesis by (intro str) (auto simp: jsmn_parse_switch_def Let_def quote_def)
  next
    case d
    then show ?thesis by (intro sp) (auto simp: jsmn_parse_switch_def Let_def quote_def is_space_def)
  next
    case e
    then show ?thesis by (intro colon) (auto simp: jsmn_parse_switch_def Let_def quote_def is_space_def)
  next
    case f
    then show ?thesis by (intro comma) (auto simp: jsmn_parse_switch_def Let_def quote_def is_space_def)
  next
    case g
    then show ?thesis
      by (intro prim) (auto simp: jsmn_parse_switch_def Let_def prim_delim_def is_space_def)
  qed
qed

lemma switch_dry_real:
  assumes "pos pd = pos p" "parser_ok js p ts"
  shows "(\<exists>e. jsmn_parse_switch js pd None c = Return e pd None
            \<and> jsmn_parse_switch js p (Some ts) c = Return e p (Some ts))
       \<or> (\<exists>pd' c'. jsmn_parse_switch js pd None c = Break pd' None c' \<and> c \<le> c' \<and>
            ((\<exists>p' ts'. jsmn_parse_switch js p (Some ts) c = Break p' (Some ts') c' \<and> pos p' = pos pd')
             \<or> jsmn_parse_switch js p (Some ts) c = Return JSMN_ERROR_INVAL p (Some ts)
             \<or> (c' = c + 1 \<and> length ts \<le> toknext p
                 \<and> jsmn_parse_switch js p (Some ts) c = Return JSMN_ERROR_NOMEM p (Some ts))))"
proof -
  from assms(2) have sup: "-1 \<le> toksuper p" "toksuper p < int (toknext p)"
    by (simp_all add: parser_ok_def)
  from assms(1) have same: "js ! pos pd = js ! pos p" by simp
  show ?thesis
  proof (cases rule: switch_cases [of js p])
    case op
    with same have "jsmn_parse_switch js pd None c = jsmn_case_open (js ! pos p) pd None c"
      by (cases rule: switch_cases [of js pd]) (auto simp: quote_def is_space_def prim_delim_def)
    with op(2) assms(1) show ?thesis
      by (auto simp: case_open_None case_open_Some [OF sup])
  next
    case cl
    with same have d: "jsmn_parse_switch js pd None c = Break pd None c"
      by (cases rule: switch_cases [of js pd])
         (auto simp: quote_def is_space_def prim_delim_def case_close_None)
    have "(\<exists>p' ts'. jsmn_case_close (js ! pos p) p (Some ts) c = Break p' (Some ts') c \<and> pos p' = pos p)
        \<or> jsmn_case_close (js ! pos p) p (Some ts) c = Return JSMN_ERROR_INVAL p (Some ts)"
      by (cases "scan_back is_open ts (toknext p)") (auto simp: jsmn_case_close_def Let_def)
    with d cl(2) assms(1) show ?thesis by auto
  next
    case str
    with same have "jsmn_parse_switch js pd None c = jsmn_case_string js pd None c"
      by (cases rule: switch_cases [of js pd]) (auto simp: quote_def is_space_def prim_delim_def)
    with str(2) assms(1) show ?thesis
      by (cases "jsmn_parse_string_loop js (pos p + 1)")
         (auto simp: case_string_None case_string_Some)
  next
    case sp
    with same have "jsmn_parse_switch js pd None c = Break pd None c"
      by (cases rule: switch_cases [of js pd]) (auto simp: quote_def is_space_def prim_delim_def)
    with sp(2) assms(1) show ?thesis by auto
  next
    case colon
    with same have "jsmn_parse_switch js pd None c = jsmn_case_colon pd None c"
      by (cases rule: switch_cases [of js pd]) (auto simp: quote_def is_space_def prim_delim_def)
    with colon(2) assms(1) show ?thesis by (auto simp: jsmn_case_colon_def)
  next
    case comma
    with same have d: "jsmn_parse_switch js pd None c = Break pd None c"
      by (cases rule: switch_cases [of js pd])
         (auto simp: quote_def is_space_def prim_delim_def case_comma_None)
    have "\<exists>p' ts'. jsmn_case_comma p (Some ts) c = Break p' (Some ts') c \<and> pos p' = pos p"
      by (auto simp: jsmn_case_comma_def split: option.splits)
    with d comma(2) assms(1) show ?thesis by auto
  next
    case prim
    with same have "jsmn_parse_switch js pd None c = jsmn_case_primitive js pd None c"
      by (cases rule: switch_cases [of js pd]) (auto simp: quote_def is_space_def prim_delim_def)
    with prim(5) assms(1) show ?thesis
      by (cases "jsmn_parse_primitive_loop js (pos p)")
         (auto simp: case_primitive_None case_primitive_Some)
  qed
qed


lemma loop_unfold_Break:
  assumes "pos p < length js" "js ! pos p \<noteq> NUL"
    and "jsmn_parse_switch js p tk c = Break p' tk' c'"
  shows "jsmn_parse_loop js p tk c = jsmn_parse_loop js (p'\<lparr>pos := pos p' + 1\<rparr>) tk' c'"
  using assms by (simp add: jsmn_parse_loop.simps [of js p])

lemma loop_unfold_Return:
  assumes "pos p < length js" "js ! pos p \<noteq> NUL"
    and "jsmn_parse_switch js p tk c = Return e p' tk'"
  shows "jsmn_parse_loop js p tk c = (Inl e, p', tk')"
  using assms by (simp add: jsmn_parse_loop.simps [of js p])

lemma loop_unfold_end:
  assumes "\<not> (pos p < length js \<and> js ! pos p \<noteq> NUL)"
  shows "jsmn_parse_loop js p tk c = (Inr c, p, tk)"
  using assms by (subst jsmn_parse_loop.simps) (simp only: if_False)

lemma switch_None:
  assumes "pos pd < length js"
  shows "jsmn_parse_switch js pd None c = Return e pd' tk' \<longrightarrow> pd' = pd \<and> tk' = None"
    and "jsmn_parse_switch js pd None c = Break pd' tk' c' \<longrightarrow> tk' = None \<and> c \<le> c'"
proof -
  have "parser_ok js \<lparr>pos = pos pd, toknext = 0, toksuper = -1\<rparr> []"
    using assms by (simp add: parser_ok_def)
  from switch_dry_real [OF _ this, of pd c]
  show "jsmn_parse_switch js pd None c = Return e pd' tk' \<longrightarrow> pd' = pd \<and> tk' = None"
    and "jsmn_parse_switch js pd None c = Break pd' tk' c' \<longrightarrow> tk' = None \<and> c \<le> c'"
    by auto
qed

lemma dry_loop_mono:
  "jsmn_parse_loop js pd tk c = (Inr n, pd', tk') \<Longrightarrow> tk = None \<Longrightarrow> c \<le> n"
proof (induction js pd tk c rule: jsmn_parse_loop.induct)
  case (1 js pd tk c)
  show ?case
  proof (cases "pos pd < length js \<and> js ! pos pd \<noteq> NUL")
    case False
    with "1.prems" show ?thesis by (simp add: loop_unfold_end)
  next
    case True
    show ?thesis
    proof (cases "jsmn_parse_switch js pd tk c")
      case (Return e p1 tk1)
      with True "1.prems" show ?thesis by (simp add: loop_unfold_Return)
    next
      case (Break p1 tk1 c1)
      with switch_None(2) [of pd js c p1 tk1 c1] True "1.prems"(2)
      have tk1: "tk1 = None" "c \<le> c1" by auto
      from Break True "1.prems"(1) have "jsmn_parse_loop js (p1\<lparr>pos := pos p1 + 1\<rparr>) tk1 c1 = (Inr n, pd', tk')"
        by (simp add: loop_unfold_Break)
      from "1.IH" [OF True Break this tk1(1)] tk1(2) show ?thesis by simp
    qed
  qed
qed

lemma dry_real_loop:
  assumes "jsmn_parse_loop js pd tkd c = (rd, pd', tkd')" "tkd = None"
    and "pos pd = pos p" "parser_ok js p ts" "c = int (toknext p)"
  shows "\<exists>r p' ts'. jsmn_parse_loop js p (Some ts) c = (r, p', Some ts') \<and> length ts' = length ts
     \<and> ((r = rd \<and> pos p' = pos pd') \<or> r = Inl JSMN_ERROR_INVAL
         \<or> (r = Inl JSMN_ERROR_NOMEM \<and> (\<forall>n. rd = Inr n \<longrightarrow> int (length ts) < n)))"
  using assms
proof (induction js pd tkd c arbitrary: p ts rule: jsmn_parse_loop.induct)
  case (1 js pd tkd c)
  note same = \<open>pos pd = pos p\<close>
  show ?case
  proof (cases "pos pd < length js \<and> js ! pos pd \<noteq> NUL")
    case False
    with "1.prems"(1) have "rd = Inr c" "pd' = pd" by (simp_all add: loop_unfold_end)
    moreover from False same have "jsmn_parse_loop js p (Some ts) c = (Inr c, p, Some ts)"
      by (simp add: loop_unfold_end)
    ultimately show ?thesis using same by simp
  next
    case True
    with same have Tp: "pos p < length js" "js ! pos p \<noteq> NUL" by simp_all
    from switch_dry_real [OF same "1.prems"(4), of c]
    consider (err) e where "jsmn_parse_switch js pd None c = Return e pd None"
        "jsmn_parse_switch js p (Some ts) c = Return e p (Some ts)"
      | (both) pd1 c1 p1 ts1 where "jsmn_parse_switch js pd None c = Break pd1 None c1"
        "jsmn_parse_switch js p (Some ts) c = Break p1 (Some ts1) c1" "pos p1 = pos pd1"
      | (inval) pd1 c1 where "jsmn_parse_switch js pd None c = Break pd1 None c1"
        "jsmn_parse_switch js p (Some ts) c = Return JSMN_ERROR_INVAL p (Some ts)"
      | (nomem) pd1 where "jsmn_parse_switch js pd None c = Break pd1 None (c + 1)"
        "length ts \<le> toknext p"
        "jsmn_parse_switch js p (Some ts) c = Return JSMN_ERROR_NOMEM p (Some ts)"
      by blast
    then show ?thesis
    proof cases
      case err
      with True "1.prems"(1,2) have "rd = Inl e" "pd' = pd" by (simp_all add: loop_unfold_Return)
      moreover from err(2) Tp have "jsmn_parse_loop js p (Some ts) c = (Inl e, p, Some ts)"
        by (simp add: loop_unfold_Return)
      ultimately show ?thesis using same by simp
    next
      case both
      from both(1) True "1.prems"(1,2)
      have d: "jsmn_parse_loop js (pd1\<lparr>pos := pos pd1 + 1\<rparr>) None c1 = (rd, pd', tkd')"
        by (simp add: loop_unfold_Break)
      from jsmn_parse_switch_ok [OF "1.prems"(4) Tp(1) both(2)]
      have ok: "length ts1 = length ts" "parser_ok js (p1\<lparr>pos := pos p1 + 1\<rparr>) ts1"
          "c1 - int (toknext p1) = c - int (toknext p)"
        by (auto simp: step_ok_def)
      from both(1) "1.prems"(2) have sw: "jsmn_parse_switch js pd tkd c = Break pd1 None c1" by simp
      have "\<exists>r p' ts'. jsmn_parse_loop js (p1\<lparr>pos := pos p1 + 1\<rparr>) (Some ts1) c1 = (r, p', Some ts')
          \<and> length ts' = length ts1
          \<and> ((r = rd \<and> pos p' = pos pd') \<or> r = Inl JSMN_ERROR_INVAL
             \<or> (r = Inl JSMN_ERROR_NOMEM \<and> (\<forall>n. rd = Inr n \<longrightarrow> int (length ts1) < n)))"
        using ok "1.prems"(5) both(3)
        by (intro "1.IH" [OF True sw d refl]) simp_all
      moreover from both(2) Tp have "jsmn_parse_loop js p (Some ts) c
          = jsmn_parse_loop js (p1\<lparr>pos := pos p1 + 1\<rparr>) (Some ts1) c1"
        by (simp add: loop_unfold_Break)
      ultimately show ?thesis using ok(1) by simp
    next
      case inval
      from inval(2) Tp have "jsmn_parse_loop js p (Some ts) c = (Inl JSMN_ERROR_INVAL, p, Some ts)"
        by (simp add: loop_unfold_Return)
      then show ?thesis by simp
    next
      case nomem
      from nomem(1) True "1.prems"(1,2)
      have d: "jsmn_parse_loop js (pd1\<lparr>pos := pos pd1 + 1\<rparr>) None (c + 1) = (rd, pd', tkd')"
        by (simp add: loop_unfold_Break)
      have "int (length ts) < n" if "rd = Inr n" for n
      proof -
        from d that have "c + 1 \<le> n" by (auto dest: dry_loop_mono)
        with nomem(2) "1.prems"(5) show ?thesis by simp
      qed
      moreover from nomem(3) Tp have "jsmn_parse_loop js p (Some ts) c = (Inl JSMN_ERROR_NOMEM, p, Some ts)"
        by (simp add: loop_unfold_Return)
      ultimately show ?thesis by simp
    qed
  qed
qed

lemma jsmn_parse_None: "jsmn_parse p js None = jsmn_parse_loop js p None (int (toknext p))
    \<or> (\<exists>n p' ts. jsmn_parse_loop js p None (int (toknext p)) = (Inr n, p', Some ts))"
  by (auto simp: jsmn_parse_def split: prod.splits sum.splits option.splits)


lemma dry_loop_None:
  "jsmn_parse_loop js pd tk c = (r, pd', tk') \<Longrightarrow> tk = None \<Longrightarrow> tk' = None"
proof (induction js pd tk c rule: jsmn_parse_loop.induct)
  case (1 js pd tk c)
  show ?case
  proof (cases "pos pd < length js \<and> js ! pos pd \<noteq> NUL")
    case False
    with "1.prems" show ?thesis by (simp add: loop_unfold_end)
  next
    case True
    show ?thesis
    proof (cases "jsmn_parse_switch js pd tk c")
      case (Return e p1 tk1)
      with switch_None(1) [of pd js c e p1 tk1] True "1.prems" show ?thesis
        by (simp add: loop_unfold_Return)
    next
      case (Break p1 tk1 c1)
      with switch_None(2) [of pd js c p1 tk1 c1] True "1.prems"(2)
      have tk1: "tk1 = None" by auto
      from Break True "1.prems"(1) have "jsmn_parse_loop js (p1\<lparr>pos := pos p1 + 1\<rparr>) tk1 c1 = (r, pd', tk')"
        by (simp add: loop_unfold_Break)
      from "1.IH" [OF True Break this tk1] show ?thesis .
    qed
  qed
qed

lemma jsmn_parse_dry: "jsmn_parse p js None = jsmn_parse_loop js p None (int (toknext p))"
proof -
  obtain r p' tk' where l: "jsmn_parse_loop js p None (int (toknext p)) = (r, p', tk')"
    by (metis prod_cases3)
  from dry_loop_None [OF l refl] l show ?thesis
    by (simp add: jsmn_parse_def split: sum.splits)
qed

lemma sim_nth: "take n A = take n B \<Longrightarrow> i < n \<Longrightarrow> A ! i = B ! i"
  by (metis nth_take)

lemma sim_scan: "take n A = take n B \<Longrightarrow> m \<le> n \<Longrightarrow> scan_back P A m = scan_back P B m"
  by (induction m) (auto simp: sim_nth)

lemma sim_update: "take n A = take n B \<Longrightarrow> take n (A[i := x]) = take n (B[i := x])"
  by (simp add: take_update_swap)

lemma sim_Suc:
  "take n A = take n B \<Longrightarrow> n < length A \<Longrightarrow> n < length B
     \<Longrightarrow> take (Suc n) (A[n := x]) = take (Suc n) (B[n := x])"
  by (simp add: take_Suc_conv_app_nth)

lemma sim_size_incr:
  assumes "take n A = take n B" "-1 \<le> toksuper p" "toksuper p < int n"
  shows "take n (size_incr p A) = take n (size_incr p B)"
proof (cases "toksuper p = -1")
  case True
  with assms(1) show ?thesis by (simp add: size_incr_def)
next
  case False
  with assms(2,3) have "nat (toksuper p) < n" by linarith
  with assms(1) have eq: "A ! nat (toksuper p) = B ! nat (toksuper p)" by (rule sim_nth)
  let ?x = "(B ! nat (toksuper p))\<lparr>tok_size := tok_size (B ! nat (toksuper p)) + 1\<rparr>"
  from False eq have "size_incr p A = A[nat (toksuper p) := ?x]"
    and "size_incr p B = B[nat (toksuper p) := ?x]"
    by (simp_all add: size_incr_def)
  then show ?thesis by (simp only: sim_update [OF assms(1)])
qed

lemma sim_alloc:
  assumes "take n A = take n B" "-1 \<le> toksuper p" "toksuper p < int n" "n < length A" "n < length B"
  shows "take (Suc n) (size_incr p (A[n := x])) = take (Suc n) (size_incr p (B[n := x]))"
proof -
  from sim_size_incr [OF assms(1-3)] assms(4,5)
  have "take (Suc n) ((size_incr p A)[n := x]) = take (Suc n) ((size_incr p B)[n := x])"
    by (intro sim_Suc) simp_all
  then show ?thesis by (simp add: size_incr_update_other [OF assms(2,3)])
qed


lemma switch_pool_sim:
  assumes "parser_ok js p S" "parser_ok js p L" "take (toknext p) S = take (toknext p) L"
    and "length S \<le> length L"
  shows "(\<exists>e. jsmn_parse_switch js p (Some S) c = Return e p (Some S)
            \<and> jsmn_parse_switch js p (Some L) c = Return e p (Some L))
       \<or> (\<exists>p' S' L' c'. jsmn_parse_switch js p (Some S) c = Break p' (Some S') c'
            \<and> jsmn_parse_switch js p (Some L) c = Break p' (Some L') c'
            \<and> take (toknext p') S' = take (toknext p') L')
       \<or> (jsmn_parse_switch js p (Some S) c = Return JSMN_ERROR_NOMEM p (Some S)
            \<and> length S \<le> toknext p
            \<and> (\<exists>p' L'. jsmn_parse_switch js p (Some L) c = Break p' (Some L') (c + 1)))"
proof -
  let ?n = "toknext p"
  note sim = assms(3)
  from assms(1) have sup: "-1 \<le> toksuper p" "toksuper p < int ?n"
    by (simp_all add: parser_ok_def)
  from assms(1,2) have len: "?n \<le> length S" "?n \<le> length L"
    by (simp_all add: parser_ok_def)
  have alloc: "take (Suc ?n) (size_incr p (S[?n := x])) = take (Suc ?n) (size_incr p (L[?n := x]))"
    if "?n < length S" for x
    using that assms(4) by (intro sim_alloc [OF sim sup]) simp_all
  show ?thesis
  proof (cases rule: switch_cases [of js p])
    case op
    show ?thesis
    proof (cases "?n < length S")
      case True
      with alloc [OF True] assms(4) op(2) show ?thesis
        by (simp add: case_open_Some [OF sup] size_incr_update_other [OF sup, symmetric])
    next
      case False
      with assms(4) op(2) show ?thesis
        by (auto simp: case_open_Some [OF sup])
    qed
  next
    case cl
    let ?ty = "if js ! pos p = CHR ''}'' then JSMN_OBJECT else JSMN_ARRAY"
    have sc: "scan_back is_open S ?n = scan_back is_open L ?n"
      by (rule sim_scan [OF sim order_refl])
    show ?thesis
    proof (cases "scan_back is_open L ?n")
      case None
      with sc cl(2) show ?thesis by (simp add: jsmn_case_close_def)
    next
      case (Some i)
      from scan_back_Some [OF Some] have i: "i < ?n" by simp
      from sim_nth [OF sim i] have eq: "S ! i = L ! i" .
      show ?thesis
      proof (cases "tok_type (L ! i) = ?ty")
        case False
        with Some sc eq cl(2) show ?thesis by (simp add: jsmn_case_close_def)
      next
        case True
        let ?x = "(L ! i)\<lparr>tok_end := int (pos p) + 1\<rparr>"
        have upd: "take ?n (S[i := ?x]) = take ?n (L[i := ?x])"
          by (rule sim_update [OF sim])
        from i have "scan_back is_open (S[i := ?x]) (Suc i) = scan_back is_open (L[i := ?x]) (Suc i)"
          by (intro sim_scan [OF upd]) simp
        with True Some sc eq cl(2) upd show ?thesis
          by (simp add: jsmn_case_close_def Let_def)
      qed
    qed
  next
    case str
    show ?thesis
    proof (cases "jsmn_parse_string_loop js (pos p + 1)")
      case (Inl e)
      with str(2) show ?thesis by (simp add: case_string_Some)
    next
      case (Inr q)
      show ?thesis
      proof (cases "?n < length S")
        case True
        with alloc [OF True] assms(4) str(2) Inr show ?thesis
          by (simp add: case_string_Some)
      next
        case False
        with assms(4) str(2) Inr show ?thesis
          by (auto simp: case_string_Some)
      qed
    qed
  next
    case sp
    with sim show ?thesis by simp
  next
    case colon
    with sim show ?thesis by (simp add: jsmn_case_colon_def)
  next
    case comma
    have sc: "scan_back (\<lambda>t. is_container t \<and> is_open t) S ?n
        = scan_back (\<lambda>t. is_container t \<and> is_open t) L ?n"
      by (rule sim_scan [OF sim order_refl])
    have ty: "tok_type (S ! nat (toksuper p)) = tok_type (L ! nat (toksuper p))"
      if "toksuper p \<noteq> -1"
    proof -
      from that sup have "nat (toksuper p) < ?n" by linarith
      from sim_nth [OF sim this] show ?thesis by simp
    qed
    from comma(2) sc ty sim show ?thesis
      by (cases "scan_back (\<lambda>t. is_container t \<and> is_open t) L ?n")
         (auto simp: jsmn_case_comma_def)
  next
    case prim
    show ?thesis
    proof (cases "jsmn_parse_primitive_loop js (pos p)")
      case None
      with prim(5) show ?thesis by (simp add: case_primitive_Some)
    next
      case (Some q)
      show ?thesis
      proof (cases "?n < length S")
        case True
        with alloc [OF True] assms(4) prim(5) Some show ?thesis
          by (simp add: case_primitive_Some)
      next
        case False
        with assms(4) prim(5) Some show ?thesis
          by (auto simp: case_primitive_Some)
      qed
    qed
  qed
qed


lemma switch_count_mono:
  assumes "parser_ok js p ts" "jsmn_parse_switch js p (Some ts) c = Break p' tk' c'"
  shows "c \<le> c'"
  using switch_dry_real [OF refl assms(1), of c] assms(2) by auto

lemma real_loop_mono:
  assumes "parser_ok js p ts" "jsmn_parse_loop js p tk c = (Inr n, p', tk')" "tk = Some ts"
  shows "c \<le> n"
  using assms
proof (induction js p tk c arbitrary: ts rule: jsmn_parse_loop.induct)
  case (1 js p tk c)
  show ?case
  proof (cases "pos p < length js \<and> js ! pos p \<noteq> NUL")
    case False
    with "1.prems" show ?thesis by (simp add: loop_unfold_end)
  next
    case True
    show ?thesis
    proof (cases "jsmn_parse_switch js p tk c")
      case (Return e p1 tk1)
      with True "1.prems" show ?thesis by (simp add: loop_unfold_Return)
    next
      case (Break p1 tk1 c1)
      with "1.prems"(3) have sw: "jsmn_parse_switch js p (Some ts) c = Break p1 tk1 c1" by simp
      from jsmn_parse_switch_ok [OF "1.prems"(1) _ sw] True
      obtain ts1 where ts1: "tk1 = Some ts1" "parser_ok js (p1\<lparr>pos := pos p1 + 1\<rparr>) ts1"
        by (auto simp: step_ok_def)
      from Break True "1.prems"(2) have "jsmn_parse_loop js (p1\<lparr>pos := pos p1 + 1\<rparr>) tk1 c1 = (Inr n, p', tk')"
        by (simp add: loop_unfold_Break)
      from "1.IH" [OF True Break ts1(2) this ts1(1)] switch_count_mono [OF "1.prems"(1) sw]
      show ?thesis by simp
    qed
  qed
qed

lemma pool_sim_loop:
  assumes "jsmn_parse_loop js p tk c = (rS, pS, tkS)" "tk = Some S"
    and "parser_ok js p S" "parser_ok js p L" "take (toknext p) S = take (toknext p) L"
    and "length S \<le> length L" "c = int (toknext p)"
  shows "\<exists>rL pL S' L'. tkS = Some S' \<and> jsmn_parse_loop js p (Some L) c = (rL, pL, Some L')
     \<and> ((rS = rL \<and> pS = pL \<and> take (toknext pS) S' = take (toknext pS) L')
         \<or> (rS = Inl JSMN_ERROR_NOMEM \<and> (\<forall>n. rL = Inr n \<longrightarrow> int (length S) < n)))"
  using assms
proof (induction js p tk c arbitrary: S L rule: jsmn_parse_loop.induct)
  case (1 js p tk c)
  show ?case
  proof (cases "pos p < length js \<and> js ! pos p \<noteq> NUL")
    case False
    then have "jsmn_parse_loop js p tk c = (Inr c, p, tk)"
      and "jsmn_parse_loop js p (Some L) c = (Inr c, p, Some L)"
      by (simp_all add: loop_unfold_end)
    with "1.prems"(1,2,5) show ?thesis by auto
  next
    case True
    then have T: "pos p < length js" "js ! pos p \<noteq> NUL" by simp_all
    from switch_pool_sim [OF "1.prems"(3,4,5,6), of c]
    consider (err) e where "jsmn_parse_switch js p (Some S) c = Return e p (Some S)"
        "jsmn_parse_switch js p (Some L) c = Return e p (Some L)"
      | (both) p1 S1 L1 c1 where "jsmn_parse_switch js p (Some S) c = Break p1 (Some S1) c1"
        "jsmn_parse_switch js p (Some L) c = Break p1 (Some L1) c1"
        "take (toknext p1) S1 = take (toknext p1) L1"
      | (nomem) p1 L1 where "jsmn_parse_switch js p (Some S) c = Return JSMN_ERROR_NOMEM p (Some S)"
        "length S \<le> toknext p" "jsmn_parse_switch js p (Some L) c = Break p1 (Some L1) (c + 1)"
      by blast
    then show ?thesis
    proof cases
      case err
      with T "1.prems"(2) have "jsmn_parse_loop js p tk c = (Inl e, p, tk)"
        and "jsmn_parse_loop js p (Some L) c = (Inl e, p, Some L)"
        by (simp_all add: loop_unfold_Return)
      with "1.prems"(1,2,5) show ?thesis by auto
    next
      case both
      from jsmn_parse_switch_ok [OF "1.prems"(3) T(1) both(1)]
      have okS: "length S1 = length S" "parser_ok js (p1\<lparr>pos := pos p1 + 1\<rparr>) S1"
          "c1 - int (toknext p1) = c - int (toknext p)"
        by (auto simp: step_ok_def)
      from jsmn_parse_switch_ok [OF "1.prems"(4) T(1) both(2)]
      have okL: "length L1 = length L" "parser_ok js (p1\<lparr>pos := pos p1 + 1\<rparr>) L1"
        by (auto simp: step_ok_def)
      from both(1) "1.prems"(2) have sw: "jsmn_parse_switch js p tk c = Break p1 (Some S1) c1" by simp
      from sw T "1.prems"(1)
      have l: "jsmn_parse_loop js (p1\<lparr>pos := pos p1 + 1\<rparr>) (Some S1) c1 = (rS, pS, tkS)"
        by (simp add: loop_unfold_Break)
      have "\<exists>rL pL S' L'. tkS = Some S'
          \<and> jsmn_parse_loop js (p1\<lparr>pos := pos p1 + 1\<rparr>) (Some L1) c1 = (rL, pL, Some L')
          \<and> ((rS = rL \<and> pS = pL \<and> take (toknext pS) S' = take (toknext pS) L')
             \<or> (rS = Inl JSMN_ERROR_NOMEM \<and> (\<forall>n. rL = Inr n \<longrightarrow> int (length S1) < n)))"
        using okS okL both(3) "1.prems"(6,7)
        by (intro "1.IH" [OF True sw l refl]) simp_all
      moreover from both(2) T have "jsmn_parse_loop js p (Some L) c
          = jsmn_parse_loop js (p1\<lparr>pos := pos p1 + 1\<rparr>) (Some L1) c1"
        by (simp add: loop_unfold_Break)
      ultimately show ?thesis using okS(1) by simp
    next
      case nomem
      from nomem(1) T "1.prems"(1,2) have r: "rS = Inl JSMN_ERROR_NOMEM" "tkS = Some S"
        by (simp_all add: loop_unfold_Return)
      obtain rL pL tkL where l: "jsmn_parse_loop js (p1\<lparr>pos := pos p1 + 1\<rparr>) (Some L1) (c + 1) = (rL, pL, tkL)"
        by (metis prod_cases3)
      from jsmn_parse_switch_ok [OF "1.prems"(4) T(1) nomem(3)]
      have okL: "parser_ok js (p1\<lparr>pos := pos p1 + 1\<rparr>) L1" by (auto simp: step_ok_def)
      from jsmn_parse_loop_ok [OF okL l refl] obtain L' where L': "tkL = Some L'" by blast
      have "int (length S) < n" if "rL = Inr n" for n
      proof -
        from real_loop_mono [OF okL l [unfolded that] refl] have "c + 1 \<le> n" .
        with nomem(2) "1.prems"(7) show ?thesis by simp
      qed
      moreover from nomem(3) T l have "jsmn_parse_loop js p (Some L) c = (rL, pL, tkL)"
        by (simp add: loop_unfold_Break)
      ultimately show ?thesis using r L' by simp
    qed
  qed
qed

lemma jsmn_parse_from_loop:
  assumes "jsmn_parse_loop js p (Some ts) (int (toknext p)) = (r, p', Some ts')"
  shows "jsmn_parse p js (Some ts) =
     ((case r of Inl e \<Rightarrow> Inl e
       | Inr n \<Rightarrow> (case scan_back is_open ts' (toknext p') of
                     None \<Rightarrow> Inr n | Some i \<Rightarrow> Inl JSMN_ERROR_PART)), p', Some ts')"
  using assms by (simp add: jsmn_parse_def split: sum.splits option.splits)

lemma pool_sim_parse:
  assumes "jsmn_parse jsmn_init js (Some S) = (rS, pS, tkS)" "length S \<le> length L"
  shows "\<exists>rL pL S' L'. tkS = Some S' \<and> jsmn_parse jsmn_init js (Some L) = (rL, pL, Some L')
     \<and> ((rS = rL \<and> pS = pL \<and> take (toknext pS) S' = take (toknext pS) L')
         \<or> (rS = Inl JSMN_ERROR_NOMEM \<and> (\<forall>n. rL = Inr n \<longrightarrow> int (length S) < n)))"
proof -
  obtain r0 p0 tk0 where l: "jsmn_parse_loop js jsmn_init (Some S) 0 = (r0, p0, tk0)"
    by (metis prod_cases3)
  from pool_sim_loop [OF l refl parser_ok_init parser_ok_init _ assms(2)]
  obtain rL pL S' L' where s: "tk0 = Some S'"
      "jsmn_parse_loop js jsmn_init (Some L) 0 = (rL, pL, Some L')"
      "(r0 = rL \<and> p0 = pL \<and> take (toknext p0) S' = take (toknext p0) L')
         \<or> (r0 = Inl JSMN_ERROR_NOMEM \<and> (\<forall>n. rL = Inr n \<longrightarrow> int (length S) < n))"
    by (auto simp: jsmn_init_def)
  from s(3) show ?thesis
  proof
    assume same: "r0 = rL \<and> p0 = pL \<and> take (toknext p0) S' = take (toknext p0) L'"
    then have "take (toknext p0) S' = take (toknext p0) L'" by blast
    then have "scan_back is_open S' (toknext p0) = scan_back is_open L' (toknext p0)"
      by (rule sim_scan [OF _ order_refl])
    with same l s(1,2) assms(1) show ?thesis
      by (auto simp: jsmn_parse_def jsmn_init_def split: sum.splits option.splits)
  next
    assume nomem: "r0 = Inl JSMN_ERROR_NOMEM \<and> (\<forall>n. rL = Inr n \<longrightarrow> int (length S) < n)"
    with l s(1) assms(1) have "rS = Inl JSMN_ERROR_NOMEM" "tkS = Some S'"
      by (auto simp: jsmn_parse_def jsmn_init_def)
    moreover from s(2) have "jsmn_parse_loop js jsmn_init (Some L) (int (toknext jsmn_init)) = (rL, pL, Some L')"
      by (simp add: jsmn_init_def)
    note jsmn_parse_from_loop [OF this]
    moreover have "rL = Inr n" if "(case rL of Inl e \<Rightarrow> Inl e
       | Inr n \<Rightarrow> (case scan_back is_open L' (toknext pL) of
                     None \<Rightarrow> Inr n | Some i \<Rightarrow> Inl JSMN_ERROR_PART)) = Inr n" for n
      using that by (cases rL; cases "scan_back is_open L' (toknext pL)") auto
    ultimately show ?thesis using nomem by auto
  qed
qed

lemma dry_real_parse:
  obtains rd r where "fst (jsmn_parse jsmn_init js None) = rd"
    and "fst (jsmn_parse jsmn_init js (Some ts)) = r
      \<or> (\<exists>n. r = Inr n) \<and> fst (jsmn_parse jsmn_init js (Some ts)) = Inl JSMN_ERROR_PART"
    and "r = rd \<or> r = Inl JSMN_ERROR_INVAL
        \<or> (r = Inl JSMN_ERROR_NOMEM \<and> (\<forall>n. rd = Inr n \<longrightarrow> int (length ts) < n))"
proof -
  obtain rd pd' tkd' where dry: "jsmn_parse_loop js jsmn_init None 0 = (rd, pd', tkd')"
    by (metis prod_cases3)
  then have dryp: "fst (jsmn_parse jsmn_init js None) = rd"
    by (simp add: jsmn_parse_dry jsmn_init_def)
  from dry_real_loop [OF dry refl refl parser_ok_init, of ts]
  obtain r p' ts' where real: "jsmn_parse_loop js jsmn_init (Some ts) 0 = (r, p', Some ts')"
    and rel: "r = rd \<or> r = Inl JSMN_ERROR_INVAL
        \<or> (r = Inl JSMN_ERROR_NOMEM \<and> (\<forall>n. rd = Inr n \<longrightarrow> int (length ts) < n))"
    by (auto simp: jsmn_init_def)
  have realp: "fst (jsmn_parse jsmn_init js (Some ts)) = r
      \<or> (\<exists>n. r = Inr n) \<and> fst (jsmn_parse jsmn_init js (Some ts)) = Inl JSMN_ERROR_PART"
    using real by (auto simp: jsmn_parse_def jsmn_init_def split: sum.splits option.splits)
  from dryp realp rel show ?thesis by (rule that)
qed

text \<open>
  The wrap of the size of the block, on an example: with \<open>2^28\<close> for \<^verbatim>\<open>max_tokens\<close> the
  block has no room at all, and the parse of \<^verbatim>\<open>[1]\<close> writes two tokens.
\<close>

lemma get_json_value_wrapped:
  "get_json_value ''a'' (Some ''[1]'') 268435456 (Some junk_mem) value_mem = Undefined_write"
proof -
  have s: "jsmn_parse jsmn_init (take (strlen ''[1]'') ''[1]'') (Some [junk, junk])
      = (Inr 2, \<lparr>pos = 3, toknext = 2, toksuper = -1\<rparr>,
         Some [\<lparr>tok_type = JSMN_ARRAY, tok_start = 0, tok_end = 3, tok_size = 1\<rparr>,
               \<lparr>tok_type = JSMN_PRIMITIVE, tok_start = 1, tok_end = 2, tok_size = 0\<rparr>])"
    by code_simp
  have "length [junk, junk] \<le> length (map junk_mem [0..<unat (268435456 :: 32 word)])" by simp
  from pool_sim_parse [OF s this]
  obtain L' where "jsmn_parse jsmn_init (take (strlen ''[1]'') ''[1]'')
       (Some (map junk_mem [0..<unat (268435456 :: 32 word)]))
      = (Inr 2, \<lparr>pos = 3, toknext = 2, toksuper = -1\<rparr>, Some L')"
    by auto
  moreover have "block_slots 268435456 = 0" by (simp add: block_slots_wrap)
  ultimately show ?thesis by (simp add: get_json_value_def)
qed

section \<open>The driver on a JSON document\<close>

text \<open>The literals of JSON are among the primitives of a valid document.\<close>

lemma digit_prim_char: "is_digit c \<Longrightarrow> prim_char c"
proof -
  assume "is_digit c"
  then have r: "48 \<le> (of_char c :: nat)" "(of_char c :: nat) \<le> 57" by (simp_all add: is_digit_def)
  have "c \<noteq> d" if "(of_char d :: nat) < 48 \<or> 57 < (of_char d :: nat)" for d
    using that r by auto
  then have "\<not> prim_delim c" by (auto simp: prim_delim_def)
  with r show ?thesis by (simp add: prim_char_def)
qed

lemma digit_not_bracket: "is_digit c \<Longrightarrow> c \<noteq> quote \<and> c \<noteq> CHR ''{'' \<and> c \<noteq> CHR ''[''"
  by (auto simp: is_digit_def quote_def)

lemma digits_prim_char: "digits s \<Longrightarrow> list_all prim_char s"
  by (auto simp: digits_def list_all_iff intro: digit_prim_char)

lemma sign_prim_char:
  "prim_char (CHR ''-'')" "prim_char (CHR ''+'')" "prim_char (CHR ''.'')"
  "prim_char (CHR ''e'')" "prim_char (CHR ''E'')"
  by (simp_all add: prim_char_def prim_delim_def)

lemma json_number_prim_text:
  assumes "json_number s"
  shows "prim_text s"
proof -
  from assms obtain sign ip frac ex where s: "s = sign @ ip @ frac @ ex"
    and sign: "sign = [] \<or> sign = ''-''"
    and ip: "ip = ''0'' \<or> digits ip \<and> hd ip \<noteq> CHR ''0''"
    and frac: "frac = [] \<or> (\<exists>d. frac = CHR ''.'' # d \<and> digits d)"
    and ex: "ex = [] \<or> (\<exists>e sg d. ex = e # sg @ d \<and> (e = CHR ''e'' \<or> e = CHR ''E'')
               \<and> (sg = [] \<or> sg = ''+'' \<or> sg = ''-'') \<and> digits d)"
    unfolding json_number_def by blast
  from ip have ipd: "digits ip" by (auto simp: digits_def is_digit_def)
  then have ipne: "ip \<noteq> []" and iph: "is_digit (hd ip)"
    by (cases ip; simp add: digits_def)+
  have a1: "list_all prim_char sign" using sign by (auto simp: sign_prim_char)
  have a2: "list_all prim_char ip" using ipd by (rule digits_prim_char)
  have a3: "list_all prim_char frac" using frac by (auto simp: sign_prim_char digits_prim_char)
  have a4: "list_all prim_char ex" using ex by (auto simp: sign_prim_char digits_prim_char)
  have hd: "hd s = CHR ''-'' \<or> is_digit (hd s)"
    using sign s ipne iph by auto
  then have "hd s \<noteq> quote \<and> hd s \<noteq> CHR ''{'' \<and> hd s \<noteq> CHR ''[''"
    using digit_not_bracket by (auto simp: quote_def)
  moreover from s ipne have "s \<noteq> []" by simp
  ultimately show ?thesis using a1 a2 a3 a4 s by (simp add: prim_text_def)
qed

lemma json_literal_prim_text: "json_literal s \<Longrightarrow> prim_text s"
  unfolding json_literal_def
proof (elim disjE)
  assume "json_number s"
  then show ?thesis by (rule json_number_prim_text)
qed (simp_all add: prim_text_def prim_char_def prim_delim_def quote_def)

text \<open>The loop of the driver, one case of the switch at a time.\<close>

lemma size_incr_bump: "size_incr p ts = bump (toksuper p) ts"
  by (simp add: size_incr_def bump_def)

lemma length_bump [simp]: "length (bump s ts) = length ts"
  by (simp add: bump_def)

lemma core_bump [simp]: "core (bump s ts ! i) = core (ts ! i)"
proof (cases "s \<noteq> -1 \<and> nat s < length ts \<and> i = nat s")
  case True
  then show ?thesis by (simp add: bump_def core_def)
next
  case False
  then show ?thesis
    by (cases "nat s < length ts") (auto simp: bump_def list_update_beyond)
qed

lemma core_sel:
  "core a = core b \<Longrightarrow> tok_type a = tok_type b \<and> tok_start a = tok_start b \<and> tok_end a = tok_end b"
  by (simp add: core_def)

lemma core_is_open: "core a = core b \<Longrightarrow> is_open a = is_open b"
  by (simp add: core_def is_open_def)

lemma core_is_container: "core a = core b \<Longrightarrow> is_container a = is_container b"
  by (simp add: core_def is_container_def)

lemma core_span: "core a = core b \<Longrightarrow> span js a = span js b"
  by (simp add: core_def span_def)

lemma extends_refl: "n \<le> length ts \<Longrightarrow> extends js ts n ts []"
  by (simp add: extends_def)

lemma extends_trans:
  assumes "extends js ts n ts1 es1" "extends js ts1 (n + length es1) ts2 es2"
  shows "extends js ts n ts2 (es1 @ es2)"
proof -
  have A: "length ts2 = length ts" "n + length (es1 @ es2) \<le> length ts"
    using assms by (simp_all add: extends_def)
  have B: "core (ts2 ! i) = core (ts ! i)" if "i < n" for i
    using that assms by (simp add: extends_def)
  have C: "tok_start (ts2 ! (n + i)) \<noteq> -1 \<and> tok_end (ts2 ! (n + i)) \<noteq> -1
      \<and> (tok_type (ts2 ! (n + i)), span js (ts2 ! (n + i))) = (es1 @ es2) ! i"
    if i: "i < length (es1 @ es2)" for i
  proof (cases "i < length es1")
    case True
    with assms(2) have c: "core (ts2 ! (n + i)) = core (ts1 ! (n + i))" by (simp add: extends_def)
    from assms(1) True have "tok_start (ts1 ! (n + i)) \<noteq> -1 \<and> tok_end (ts1 ! (n + i)) \<noteq> -1
      \<and> (tok_type (ts1 ! (n + i)), span js (ts1 ! (n + i))) = es1 ! i"
      by (simp add: extends_def)
    with core_sel [OF c] core_span [OF c, of js] True show ?thesis
      by (simp add: nth_append)
  next
    case False
    with i have j: "i - length es1 < length es2" by simp
    from assms(2) j have "tok_start (ts2 ! (n + length es1 + (i - length es1))) \<noteq> -1
      \<and> tok_end (ts2 ! (n + length es1 + (i - length es1))) \<noteq> -1
      \<and> (tok_type (ts2 ! (n + length es1 + (i - length es1))),
          span js (ts2 ! (n + length es1 + (i - length es1)))) = es2 ! (i - length es1)"
      unfolding extends_def by blast
    with False show ?thesis by (simp add: nth_append)
  qed
  from A B C show ?thesis unfolding extends_def by blast
qed

lemma extends_one:
  assumes "n < length ts" "-1 \<le> s" "s < int n" "st \<noteq> -1" "e \<noteq> -1"
    and "span js (fresh_tok ty st e) = x"
  shows "extends js ts n (bump s (ts[n := fresh_tok ty st e])) [(ty, x)]"
proof -
  have new: "bump s (ts[n := fresh_tok ty st e]) ! n = fresh_tok ty st e"
  proof (cases "s = -1")
    case True
    with assms(1) show ?thesis by (simp add: bump_def)
  next
    case False
    with assms(2,3) have "nat s \<noteq> n" by linarith
    with assms(1) show ?thesis by (simp add: bump_def)
  qed
  have old: "core (bump s (ts[n := fresh_tok ty st e]) ! i) = core (ts ! i)" if "i < n" for i
    using that by simp
  from new old assms show ?thesis
    by (simp add: extends_def)
qed

lemma scan_back_found:
  assumes "i < m" "P (ts ! i)" "\<forall>j. i < j \<and> j < m \<longrightarrow> \<not> P (ts ! j)"
  shows "scan_back P ts m = Some i"
  using assms
proof (induction m)
  case 0
  then show ?case by simp
next
  case (Suc m)
  show ?case
  proof (cases "i = m")
    case True
    with Suc.prems show ?thesis by simp
  next
    case False
    with Suc.prems have "i < m" "\<not> P (ts ! m)" by auto
    with Suc show ?thesis by simp
  qed
qed

lemma encl_cong:
  assumes "\<forall>i<n. core (ts' ! i) = core (ts ! i)"
  shows "encl ts' n = encl ts n"
proof -
  have "scan_back is_open ts' m = scan_back is_open ts m" if "m \<le> n" for m
    using that
  proof (induction m)
    case 0
    show ?case by simp
  next
    case (Suc m)
    with assms have "core (ts' ! m) = core (ts ! m)" by simp
    from core_is_open [OF this] Suc show ?case by simp
  qed
  then show ?thesis by (simp add: encl_def)
qed

lemma encl_skip_closed: "\<not> is_open (ts ! n) \<Longrightarrow> encl ts (Suc n) = encl ts n"
  by (simp add: encl_def)

lemma switch_at:
  "js ! pos p = CHR ''['' \<Longrightarrow> jsmn_parse_switch js p tk k = jsmn_case_open (CHR ''['') p tk k"
  "js ! pos p = CHR ''{'' \<Longrightarrow> jsmn_parse_switch js p tk k = jsmn_case_open (CHR ''{'') p tk k"
  "js ! pos p = CHR '']'' \<Longrightarrow> jsmn_parse_switch js p tk k = jsmn_case_close (CHR '']'') p tk k"
  "js ! pos p = CHR ''}'' \<Longrightarrow> jsmn_parse_switch js p tk k = jsmn_case_close (CHR ''}'') p tk k"
  "js ! pos p = quote \<Longrightarrow> jsmn_parse_switch js p tk k = jsmn_case_string js p tk k"
  "js ! pos p = CHR '':'' \<Longrightarrow> jsmn_parse_switch js p tk k = jsmn_case_colon p tk k"
  "js ! pos p = CHR '','' \<Longrightarrow> jsmn_parse_switch js p tk k = jsmn_case_comma p tk k"
  "is_space (js ! pos p) \<Longrightarrow> jsmn_parse_switch js p tk k = Break p tk k"
  by (auto simp: jsmn_parse_switch_def Let_def quote_def is_space_def)

lemma space_not_NUL: "is_space c \<Longrightarrow> c \<noteq> NUL"
  by (auto simp: is_space_def NUL_def)

lemma run_space:
  assumes "is_space c"
  shows "run (pre @ c # post) (length pre) n s ts k = run (pre @ c # post) (length pre + 1) n s ts k"
proof -
  let ?p = "\<lparr>pos = length pre, toknext = n, toksuper = s\<rparr>"
  from assms have "jsmn_parse_switch (pre @ c # post) ?p (Some ts) k = Break ?p (Some ts) k"
    by (simp add: switch_at)
  from loop_unfold_Break [OF _ _ this] space_not_NUL [OF assms] show ?thesis by simp
qed

lemma run_ws:
  assumes "list_all is_space w"
  shows "run (pre @ w @ post) (length pre) n s ts k = run (pre @ w @ post) (length pre + length w) n s ts k"
  using assms
proof (induction w arbitrary: pre)
  case Nil
  show ?case by simp
next
  case (Cons c w)
  from Cons.prems have c: "is_space c" and w: "list_all is_space w" by simp_all
  from run_space [OF c, of pre "w @ post" n s ts k] Cons.IH [OF w, of "pre @ [c]"]
  show ?case by simp
qed

lemma run_colon:
  "run (pre @ CHR '':'' # post) (length pre) n s ts k
     = run (pre @ CHR '':'' # post) (length pre + 1) n (int n - 1) ts k"
proof -
  let ?p = "\<lparr>pos = length pre, toknext = n, toksuper = s\<rparr>"
  have "jsmn_parse_switch (pre @ CHR '':'' # post) ?p (Some ts) k
      = Break (?p\<lparr>toksuper := int n - 1\<rparr>) (Some ts) k"
    by (simp add: switch_at jsmn_case_colon_def)
  from loop_unfold_Break [OF _ _ this] show ?thesis by (simp add: NUL_def)
qed

lemma run_comma:
  assumes "s' = (if s \<noteq> -1 \<and> \<not> is_container (ts ! nat s)
       then (case scan_back (\<lambda>t. is_container t \<and> is_open t) ts n of None \<Rightarrow> s | Some i \<Rightarrow> int i)
       else s)"
  shows "run (pre @ CHR '','' # post) (length pre) n s ts k
     = run (pre @ CHR '','' # post) (length pre + 1) n s' ts k"
proof -
  let ?p = "\<lparr>pos = length pre, toknext = n, toksuper = s\<rparr>"
  have "jsmn_parse_switch (pre @ CHR '','' # post) ?p (Some ts) k
      = Break (?p\<lparr>toksuper := s'\<rparr>) (Some ts) k"
    using assms
    by (auto simp: switch_at jsmn_case_comma_def is_container_def split: option.splits)
  from loop_unfold_Break [OF _ _ this] show ?thesis by (simp add: NUL_def)
qed

lemma run_open:
  assumes "n < length ts" "-1 \<le> s" "s < int n"
    and "c = CHR ''['' \<and> ty = JSMN_ARRAY \<or> c = CHR ''{'' \<and> ty = JSMN_OBJECT"
  shows "run (pre @ c # post) (length pre) n s ts k
     = run (pre @ c # post) (length pre + 1) (n + 1) (int n)
         ((bump s ts)[n := fresh_tok ty (int (length pre)) (-1)]) (k + 1)"
proof -
  let ?p = "\<lparr>pos = length pre, toknext = n, toksuper = s\<rparr>"
  from assms(4) have "jsmn_parse_switch (pre @ c # post) ?p (Some ts) k = jsmn_case_open c ?p (Some ts) k"
    by (auto simp: switch_at)
  also have "\<dots> = Break (?p\<lparr>toknext := n + 1, toksuper := int n\<rparr>)
       (Some ((bump s ts)[n := fresh_tok ty (int (length pre)) (-1)])) (k + 1)"
    using assms case_open_Some [of ?p c ts k] by (auto simp: size_incr_bump)
  finally have sw: "jsmn_parse_switch (pre @ c # post) ?p (Some ts) k
      = Break (?p\<lparr>toknext := n + 1, toksuper := int n\<rparr>)
       (Some ((bump s ts)[n := fresh_tok ty (int (length pre)) (-1)])) (k + 1)" .
  from assms(4) have "c \<noteq> NUL" by (auto simp: NUL_def)
  with loop_unfold_Break [OF _ _ sw] show ?thesis by simp
qed

lemma run_close:
  assumes "scan_back is_open ts n = Some i" "tok_type (ts ! i) = ty"
    and "c = CHR '']'' \<and> ty = JSMN_ARRAY \<or> c = CHR ''}'' \<and> ty = JSMN_OBJECT"
  shows "run (pre @ c # post) (length pre) n s ts k
     = run (pre @ c # post) (length pre + 1) n
         (encl (ts[i := (ts ! i)\<lparr>tok_end := int (length pre) + 1\<rparr>]) (Suc i))
         (ts[i := (ts ! i)\<lparr>tok_end := int (length pre) + 1\<rparr>]) k"
proof -
  let ?p = "\<lparr>pos = length pre, toknext = n, toksuper = s\<rparr>"
  let ?ts = "ts[i := (ts ! i)\<lparr>tok_end := int (length pre) + 1\<rparr>]"
  from assms(3) have "jsmn_parse_switch (pre @ c # post) ?p (Some ts) k = jsmn_case_close c ?p (Some ts) k"
    by (auto simp: switch_at)
  also have "\<dots> = Break (?p\<lparr>toksuper := encl ?ts (Suc i)\<rparr>) (Some ?ts) k"
    using assms by (auto simp: jsmn_case_close_def Let_def encl_def)
  finally have sw: "jsmn_parse_switch (pre @ c # post) ?p (Some ts) k
      = Break (?p\<lparr>toksuper := encl ?ts (Suc i)\<rparr>) (Some ?ts) k" .
  from assms(3) have "c \<noteq> NUL" by (auto simp: NUL_def)
  with loop_unfold_Break [OF _ _ sw] show ?thesis by simp
qed

lemma run_string:
  assumes "str_body b" "n < length ts"
  shows "run (pre @ quote # b @ quote # post) (length pre) n s ts k
     = run (pre @ quote # b @ quote # post) (length pre + length b + 2) (n + 1) s
         (bump s (ts[n := fresh_tok JSMN_STRING (int (length pre) + 1) (int (length pre + 1 + length b))]))
         (k + 1)"
proof -
  let ?js = "pre @ quote # b @ quote # post"
  let ?p = "\<lparr>pos = length pre, toknext = n, toksuper = s\<rparr>"
  let ?q = "length pre + 1 + length b"
  have "jsmn_parse_switch ?js ?p (Some ts) k = jsmn_case_string ?js ?p (Some ts) k"
    by (simp add: switch_at)
  moreover from string_loop_closed [OF assms(1), of "pre @ [quote]" post]
  have "jsmn_parse_string_loop ?js (length pre + 1) = Inr ?q" by simp
  ultimately have sw: "jsmn_parse_switch ?js ?p (Some ts) k
      = Break (?p\<lparr>pos := ?q, toknext := n + 1\<rparr>)
          (Some (bump s (ts[n := fresh_tok JSMN_STRING (int (length pre) + 1) (int ?q)]))) (k + 1)"
    using assms(2) by (simp add: case_string_Some size_incr_bump)
  from loop_unfold_Break [OF _ _ sw] show ?thesis by (simp add: add.commute add.left_commute)
qed

lemma prim_delim_not_NUL: "prim_delim c \<Longrightarrow> c \<noteq> NUL"
  by (auto simp: prim_delim_def NUL_def)

lemma prim_loop_text:
  assumes "list_all prim_char x"
    and "post = [] \<or> prim_delim (hd post)"
  shows "jsmn_parse_primitive_loop (pre @ x @ post) (length pre) = Some (length pre + length x)"
  using assms(1)
proof (induction x arbitrary: pre)
  case Nil
  show ?case
  proof (cases post)
    case Nil
    then show ?thesis by (simp add: jsmn_parse_primitive_loop.simps [of _ "length pre"])
  next
    case (Cons d post')
    with assms(2) have "prim_delim d" by simp
    with Cons show ?thesis
      by (simp add: jsmn_parse_primitive_loop.simps [of _ "length pre"])
  qed
next
  case (Cons c x)
  then have pc: "prim_char c" and x: "list_all prim_char x" by simp_all
  from pc have c: "\<not> prim_delim c" "32 \<le> (of_char c :: nat)" "(of_char c :: nat) < 127"
    by (simp_all add: prim_char_def)
  from c(2) have "c \<noteq> NUL" by (auto simp: NUL_def)
  with c have "jsmn_parse_primitive_loop (pre @ (c # x) @ post) (length pre)
      = jsmn_parse_primitive_loop (pre @ (c # x) @ post) (length pre + 1)"
    by (simp add: jsmn_parse_primitive_loop.simps [of _ "length pre"])
  with Cons.IH [OF x, of "pre @ [c]"] show ?case by simp
qed

lemma run_prim:
  assumes "prim_text x" "post = [] \<or> prim_delim (hd post)" "n < length ts"
  shows "run (pre @ x @ post) (length pre) n s ts k
     = run (pre @ x @ post) (length pre + length x) (n + 1) s
         (bump s (ts[n := fresh_tok JSMN_PRIMITIVE (int (length pre)) (int (length pre + length x))]))
         (k + 1)"
proof -
  let ?js = "pre @ x @ post"
  let ?p = "\<lparr>pos = length pre, toknext = n, toksuper = s\<rparr>"
  let ?q = "length pre + length x"
  from assms(1) obtain c x' where x: "x = c # x'" by (cases x) (auto simp: prim_text_def)
  with assms(1) have "prim_char c" and c': "c \<noteq> quote" "c \<noteq> CHR ''{''" "c \<noteq> CHR ''[''"
    by (simp_all add: prim_text_def)
  then have c: "\<not> prim_delim c" "c \<noteq> quote" "c \<noteq> CHR ''{''" "c \<noteq> CHR ''[''"
      "32 \<le> (of_char c :: nat)"
    by (simp_all add: prim_char_def)
  from c(5) have nn: "c \<noteq> NUL" by (auto simp: NUL_def)
  have at: "?js ! length pre = c" using x by simp
  from c(1-4) at have "jsmn_parse_switch ?js ?p (Some ts) k = jsmn_case_primitive ?js ?p (Some ts) k"
    by (auto simp: jsmn_parse_switch_def Let_def prim_delim_def is_space_def)
  moreover from assms(1,2) have "jsmn_parse_primitive_loop ?js (length pre) = Some ?q"
    by (intro prim_loop_text) (simp_all add: prim_text_def)
  ultimately have sw: "jsmn_parse_switch ?js ?p (Some ts) k
      = Break (?p\<lparr>pos := ?q - 1, toknext := n + 1\<rparr>)
          (Some (bump s (ts[n := fresh_tok JSMN_PRIMITIVE (int (length pre)) (int ?q)]))) (k + 1)"
    using assms(3) by (simp add: case_primitive_Some size_incr_bump)
  have "length pre < length ?js" using x by simp
  from loop_unfold_Break [OF _ _ sw] this at nn x show ?thesis by simp
qed

lemma item_okI:
  assumes "\<And>pre post n s ts k.
        post = [] \<or> prim_delim (hd post) \<Longrightarrow> n + length es \<le> length ts \<Longrightarrow>
        -1 \<le> s \<Longrightarrow> s < int n \<Longrightarrow>
        \<exists>ts' s'.
           run (pre @ x @ post) (length pre) n s ts k
             = run (pre @ x @ post) (length pre + length x) (n + length es) s' ts'
                 (k + int (length es))
           \<and> extends (pre @ x @ post) ts n ts' es
           \<and> (s' = s \<or> s' = encl ts n
               \<or> (int n \<le> s' \<and> s' < int (n + length es) \<and> \<not> is_container (ts' ! nat s')))"
  shows "item_ok x es"
  unfolding item_ok_def using assms by blast

lemma item_okD:
  assumes "item_ok x es" "post = [] \<or> prim_delim (hd post)" "n + length es \<le> length ts"
    "-1 \<le> s" "s < int n"
  shows "\<exists>ts' s'.
    run (pre @ x @ post) (length pre) n s ts k
       = run (pre @ x @ post) (length pre + length x) (n + length es) s' ts' (k + int (length es))
    \<and> extends (pre @ x @ post) ts n ts' es
    \<and> (s' = s \<or> s' = encl ts n
       \<or> (int n \<le> s' \<and> s' < int (n + length es) \<and> \<not> is_container (ts' ! nat s')))"
  using assms unfolding item_ok_def by blast

lemma span_mid:
  "span (pre @ x @ post) (fresh_tok ty (int (length pre)) (int (length pre + length x))) = x"
  by (simp add: span_def)

lemma item_prim:
  assumes "prim_text x"
  shows "item_ok x [(JSMN_PRIMITIVE, x)]"
proof (rule item_okI)
  fix pre post :: string and n :: nat and s :: int and ts :: "jsmntok_t list" and k :: int
  assume a: "post = [] \<or> prim_delim (hd post)" "n + length [(JSMN_PRIMITIVE, x)] \<le> length ts"
    "-1 \<le> s" "s < int n"
  let ?ts = "bump s (ts[n := fresh_tok JSMN_PRIMITIVE (int (length pre)) (int (length pre + length x))])"
  from a(2) have n: "n < length ts" by simp
  from assms have "x \<noteq> []" by (simp add: prim_text_def)
  then have "int (length pre + length x) \<noteq> -1" by simp
  with n a(3,4) have "extends (pre @ x @ post) ts n ?ts [(JSMN_PRIMITIVE, x)]"
    by (intro extends_one span_mid) simp_all
  with run_prim [OF assms a(1) n, of pre s k]
  show "\<exists>ts' s'.
           run (pre @ x @ post) (length pre) n s ts k
             = run (pre @ x @ post) (length pre + length x) (n + length [(JSMN_PRIMITIVE, x)]) s' ts'
                 (k + int (length [(JSMN_PRIMITIVE, x)]))
           \<and> extends (pre @ x @ post) ts n ts' [(JSMN_PRIMITIVE, x)]
           \<and> (s' = s \<or> s' = encl ts n
               \<or> (int n \<le> s' \<and> s' < int (n + length [(JSMN_PRIMITIVE, x)]) \<and> \<not> is_container (ts' ! nat s')))"
    by (intro exI [of _ ?ts] exI [of _ s]) simp
qed

lemma item_str:
  assumes "str_body b"
  shows "item_ok (quote # b @ [quote]) [(JSMN_STRING, b)]"
proof (rule item_okI)
  fix pre post :: string and n :: nat and s :: int and ts :: "jsmntok_t list" and k :: int
  assume a: "post = [] \<or> prim_delim (hd post)" "n + length [(JSMN_STRING, b)] \<le> length ts"
    "-1 \<le> s" "s < int n"
  let ?js = "pre @ (quote # b @ [quote]) @ post"
  let ?ts = "bump s (ts[n := fresh_tok JSMN_STRING (int (length pre) + 1) (int (length pre + 1 + length b))])"
  from a(2) have n: "n < length ts" by simp
  have "span ((pre @ [quote]) @ b @ (quote # post))
      (fresh_tok JSMN_STRING (int (length (pre @ [quote]))) (int (length (pre @ [quote]) + length b))) = b"
    by (rule span_mid)
  then have "span ?js (fresh_tok JSMN_STRING (int (length pre) + 1) (int (length pre + 1 + length b))) = b"
    by (simp add: ac_simps)
  with n a(3,4) have "extends ?js ts n ?ts [(JSMN_STRING, b)]"
    by (intro extends_one) simp_all
  with run_string [OF assms n, of pre post s k]
  show "\<exists>ts' s'.
           run ?js (length pre) n s ts k
             = run ?js (length pre + length (quote # b @ [quote])) (n + length [(JSMN_STRING, b)]) s' ts'
                 (k + int (length [(JSMN_STRING, b)]))
           \<and> extends ?js ts n ts' [(JSMN_STRING, b)]
           \<and> (s' = s \<or> s' = encl ts n
               \<or> (int n \<le> s' \<and> s' < int (n + length [(JSMN_STRING, b)]) \<and> \<not> is_container (ts' ! nat s')))"
    by (intro exI [of _ ?ts] exI [of _ s]) simp
qed

lemma inside_scan:
  assumes "inside ts c0 n"
  shows "scan_back is_open ts n = Some c0"
    and "scan_back (\<lambda>t. is_container t \<and> is_open t) ts n = Some c0"
  using assms by (auto simp: inside_def intro!: scan_back_found)

lemma inside_encl: "inside ts c0 n \<Longrightarrow> encl ts n = int c0"
  by (simp add: encl_def inside_scan)

lemma inside_extends:
  assumes "inside ts c0 n" "extends js ts n ts' es"
  shows "inside ts' c0 (n + length es)"
proof -
  from assms have c0: "c0 < n" by (simp add: inside_def)
  with assms(2) have c: "core (ts' ! c0) = core (ts ! c0)" by (simp add: extends_def)
  have "\<not> is_open (ts' ! i)" if i: "c0 < i \<and> i < n + length es" for i
  proof (cases "i < n")
    case True
    with assms(2) have "core (ts' ! i) = core (ts ! i)" by (simp add: extends_def)
    from core_is_open [OF this] assms(1) i True show ?thesis by (simp add: inside_def)
  next
    case False
    with i have "i - n < length es" "i = n + (i - n)" by linarith+
    with assms(2) have "tok_end (ts' ! i) \<noteq> -1" unfolding extends_def by metis
    then show ?thesis by (simp add: is_open_def)
  qed
  with c0 assms(1) core_is_open [OF c] core_is_container [OF c] show ?thesis
    by (simp add: inside_def)
qed

lemma follow_ws:
  assumes "list_all is_space b" "post = [] \<or> prim_delim (hd post)"
  shows "b @ post = [] \<or> prim_delim (hd (b @ post))"
  using assms by (cases b) (auto simp: is_space_def prim_delim_def)

lemma item_pad:
  assumes "item_ok x es" "list_all is_space a" "list_all is_space b"
  shows "item_ok (a @ x @ b) es"
proof (rule item_okI)
  fix pre post :: string and n :: nat and s :: int and ts :: "jsmntok_t list" and k :: int
  assume h: "post = [] \<or> prim_delim (hd post)" "n + length es \<le> length ts" "-1 \<le> s" "s < int n"
  let ?js = "pre @ (a @ x @ b) @ post"
  from item_okD [OF assms(1) follow_ws [OF assms(3) h(1)] h(2,3,4), of "pre @ a" k]
  obtain ts' s' where r: "run ?js (length pre + length a) n s ts k
       = run ?js (length pre + length a + length x) (n + length es) s' ts' (k + int (length es))"
    and e: "extends ?js ts n ts' es"
    and s: "s' = s \<or> s' = encl ts n
       \<or> (int n \<le> s' \<and> s' < int (n + length es) \<and> \<not> is_container (ts' ! nat s'))"
    by auto
  from run_ws [OF assms(2), of pre "x @ b @ post" n s ts k]
  have "run ?js (length pre) n s ts k = run ?js (length pre + length a) n s ts k" by simp
  also note r
  also from run_ws [OF assms(3), of "pre @ a @ x" post "n + length es" s' ts' "k + int (length es)"]
  have "run ?js (length pre + length a + length x) (n + length es) s' ts' (k + int (length es))
      = run ?js (length pre + length (a @ x @ b)) (n + length es) s' ts' (k + int (length es))"
    by (simp add: ac_simps)
  finally show "\<exists>ts' s'.
           run ?js (length pre) n s ts k
             = run ?js (length pre + length (a @ x @ b)) (n + length es) s' ts' (k + int (length es))
           \<and> extends ?js ts n ts' es
           \<and> (s' = s \<or> s' = encl ts n
               \<or> (int n \<le> s' \<and> s' < int (n + length es) \<and> \<not> is_container (ts' ! nat s')))"
    using e s by blast
qed

lemma item_member:
  assumes "list_all is_space a" "list_all is_space b" "str_body key" "item_ok x es"
  shows "item_ok (a @ quote # key @ quote # b @ CHR '':'' # x) ((JSMN_STRING, key) # es)"
proof (rule item_okI)
  fix pre post :: string and n :: nat and s :: int and ts :: "jsmntok_t list" and k :: int
  assume h: "post = [] \<or> prim_delim (hd post)" "n + length ((JSMN_STRING, key) # es) \<le> length ts"
    "-1 \<le> s" "s < int n"
  let ?x = "a @ quote # key @ quote # b @ CHR '':'' # x"
  let ?js = "pre @ ?x @ post"
  let ?q = "length pre + length a + 1 + length key"
  let ?t1 = "bump s (ts[n := fresh_tok JSMN_STRING (int (length pre + length a) + 1) (int ?q)])"
  from h(2) have n: "n < length ts" by simp
  \<comment> \<open>the key\<close>
  have e1: "extends ?js ts n ?t1 [(JSMN_STRING, key)]"
  proof -
    have "span ((pre @ a @ [quote]) @ key @ (quote # b @ CHR '':'' # x @ post))
        (fresh_tok JSMN_STRING (int (length (pre @ a @ [quote])))
           (int (length (pre @ a @ [quote]) + length key))) = key"
      by (rule span_mid)
    then have "span ?js (fresh_tok JSMN_STRING (int (length pre + length a) + 1) (int ?q)) = key"
      by (simp add: ac_simps)
    with n h(3,4) show ?thesis by (intro extends_one) simp_all
  qed
  have r1: "run ?js (length pre) n s ts k = run ?js (?q + 1) (n + 1) s ?t1 (k + 1)"
  proof -
    from run_ws [OF assms(1), of pre "quote # key @ quote # b @ CHR '':'' # x @ post" n s ts k]
    have "run ?js (length pre) n s ts k = run ?js (length pre + length a) n s ts k" by simp
    also from run_string [OF assms(3) n, of "pre @ a" "b @ CHR '':'' # x @ post" s k]
    have "run ?js (length pre + length a) n s ts k = run ?js (?q + 1) (n + 1) s ?t1 (k + 1)"
      by (simp add: ac_simps)
    finally show ?thesis .
  qed
  \<comment> \<open>the colon\<close>
  have r2: "run ?js (?q + 1) (n + 1) s ?t1 (k + 1)
      = run ?js (?q + 1 + length b + 1) (n + 1) (int n) ?t1 (k + 1)"
  proof -
    from run_ws [OF assms(2), of "pre @ a @ quote # key @ [quote]" "CHR '':'' # x @ post" "n + 1" s ?t1 "k + 1"]
    have "run ?js (?q + 1) (n + 1) s ?t1 (k + 1) = run ?js (?q + 1 + length b) (n + 1) s ?t1 (k + 1)"
      by (simp add: ac_simps)
    also from run_colon [of "pre @ a @ quote # key @ quote # b" "x @ post" "n + 1" s ?t1 "k + 1"]
    have "run ?js (?q + 1 + length b) (n + 1) s ?t1 (k + 1)
        = run ?js (?q + 1 + length b + 1) (n + 1) (int n) ?t1 (k + 1)"
      by (simp add: ac_simps)
    finally show ?thesis .
  qed
  \<comment> \<open>the value\<close>
  from h(2) have room: "(n + 1) + length es \<le> length ?t1" by simp
  from item_okD [OF assms(4) h(1) room, of "int n" "pre @ a @ quote # key @ quote # b @ [CHR '':'']" "k + 1"]
  obtain ts' s' where r3: "run ?js (?q + 1 + length b + 1) (n + 1) (int n) ?t1 (k + 1)
       = run ?js (?q + 1 + length b + 1 + length x) (n + 1 + length es) s' ts' (k + 1 + int (length es))"
    and e2: "extends ?js ?t1 (n + 1) ts' es"
    and s': "s' = int n \<or> s' = encl ?t1 (n + 1)
       \<or> (int (n + 1) \<le> s' \<and> s' < int (n + 1 + length es) \<and> \<not> is_container (ts' ! nat s'))"
    by (auto simp: ac_simps)
  from extends_trans [OF e1] e2 have e: "extends ?js ts n ts' ((JSMN_STRING, key) # es)" by simp
  have sup: "s' = s \<or> s' = encl ts n
      \<or> (int n \<le> s' \<and> s' < int (n + length ((JSMN_STRING, key) # es)) \<and> \<not> is_container (ts' ! nat s'))"
  proof -
    from e have "tok_type (ts' ! (n + 0)) = JSMN_STRING" unfolding extends_def by fastforce
    then have nc: "\<not> is_container (ts' ! n)" by (simp add: is_container_def)
    from e1 have "tok_end (?t1 ! (n + 0)) \<noteq> -1" unfolding extends_def by fastforce
    then have "\<not> is_open (?t1 ! n)" by (simp add: is_open_def)
    then have "encl ?t1 (Suc n) = encl ?t1 n" by (rule encl_skip_closed)
    also from e1 have "encl ?t1 n = encl ts n" by (intro encl_cong) (simp add: extends_def)
    finally have "encl ?t1 (n + 1) = encl ts n" by simp
    with s' nc show ?thesis by auto
  qed
  from r1 r2 r3 have "run ?js (length pre) n s ts k
      = run ?js (length pre + length ?x) (n + length ((JSMN_STRING, key) # es)) s' ts'
          (k + int (length ((JSMN_STRING, key) # es)))"
    by (simp add: ac_simps)
  with e sup show "\<exists>ts' s'.
           run ?js (length pre) n s ts k
             = run ?js (length pre + length ?x) (n + length ((JSMN_STRING, key) # es)) s' ts'
                 (k + int (length ((JSMN_STRING, key) # es)))
           \<and> extends ?js ts n ts' ((JSMN_STRING, key) # es)
           \<and> (s' = s \<or> s' = encl ts n
               \<or> (int n \<le> s' \<and> s' < int (n + length ((JSMN_STRING, key) # es))
                   \<and> \<not> is_container (ts' ! nat s')))"
    by blast
qed

lemma items_ok:
  assumes "\<forall>x\<in>set xs. item_ok (fst x) (snd x)"
    and "inside ts c0 n" "n + length (concat (map snd xs)) \<le> length ts"
    and "cl = CHR '']'' \<or> cl = CHR ''}''"
  shows "\<exists>ts' s'.
     run (pre @ commas (map fst xs) @ cl # post) (length pre) n (int c0) ts k
       = run (pre @ commas (map fst xs) @ cl # post) (length pre + length (commas (map fst xs)))
           (n + length (concat (map snd xs))) s' ts' (k + int (length (concat (map snd xs))))
     \<and> extends (pre @ commas (map fst xs) @ cl # post) ts n ts' (concat (map snd xs))"
  using assms(1,2,3)
proof (induction xs arbitrary: pre n ts k)
  case Nil
  then show ?case by (auto intro: extends_refl)
next
  case (Cons x rest)
  obtain t es where x: "x = (t, es)" by (cases x)
  from Cons.prems(1) x have ok: "item_ok t es" by simp
  from Cons.prems(2) have c0: "c0 < n" by (simp add: inside_def)
  from Cons.prems(3) x have room: "n + length es \<le> length ts" by simp
  let ?js = "pre @ commas (map fst (x # rest)) @ cl # post"
  show ?case
  proof (cases rest)
    case Nil
    from assms(4) have "prim_delim (hd (cl # post))" by (auto simp: prim_delim_def)
    then have f: "cl # post = [] \<or> prim_delim (hd (cl # post))" by simp
    from item_okD [OF ok f room, of "int c0" pre k] c0 Nil x show ?thesis
      by auto
  next
    case (Cons y zs)
    let ?post = "CHR '','' # commas (map fst rest) @ cl # post"
    have js: "?js = pre @ t @ ?post" using Cons x by simp
    have f: "?post = [] \<or> prim_delim (hd ?post)" by (simp add: prim_delim_def)
    from item_okD [OF ok f room, of "int c0" pre k] c0 js
    obtain ts1 s1 where r1: "run ?js (length pre) n (int c0) ts k
         = run ?js (length pre + length t) (n + length es) s1 ts1 (k + int (length es))"
      and e1: "extends ?js ts n ts1 es"
      and s1: "s1 = int c0 \<or> s1 = encl ts n
         \<or> (int n \<le> s1 \<and> s1 < int (n + length es) \<and> \<not> is_container (ts1 ! nat s1))"
      by auto
    from inside_extends [OF Cons.prems(2) e1] have in1: "inside ts1 c0 (n + length es)" .
    \<comment> \<open>the comma brings the superior token back to the container\<close>
    have bk: "(if s1 \<noteq> -1 \<and> \<not> is_container (ts1 ! nat s1)
         then (case scan_back (\<lambda>t. is_container t \<and> is_open t) ts1 (n + length es) of
                 None \<Rightarrow> s1 | Some i \<Rightarrow> int i)
         else s1) = int c0"
    proof (cases "s1 = int c0")
      case True
      with in1 show ?thesis by (simp add: inside_def)
    next
      case False
      with s1 inside_encl [OF Cons.prems(2)]
      have "int n \<le> s1" "\<not> is_container (ts1 ! nat s1)" by auto
      with inside_scan(2) [OF in1] show ?thesis by simp
    qed
    have r2: "run ?js (length pre + length t) (n + length es) s1 ts1 (k + int (length es))
        = run ?js (length pre + length t + 1) (n + length es) (int c0) ts1 (k + int (length es))"
      unfolding js
      using run_comma [OF bk [symmetric], of "pre @ t" "commas (map fst rest) @ cl # post"
          "k + int (length es)"]
      by simp
    from e1 have len1: "length ts1 = length ts" by (simp add: extends_def)
    from Cons.prems(3) x len1 have room1: "n + length es + length (concat (map snd rest)) \<le> length ts1"
      by simp
    from Cons.prems(1) have oks: "\<forall>x\<in>set rest. item_ok (fst x) (snd x)" by simp
    from Cons.IH [OF oks in1 room1, of "pre @ t @ [CHR '','']" "k + int (length es)"] js
    obtain ts2 s2 where r3: "run ?js (length pre + length t + 1) (n + length es) (int c0) ts1 (k + int (length es))
         = run ?js (length pre + length t + 1 + length (commas (map fst rest)))
             (n + length es + length (concat (map snd rest))) s2 ts2
             (k + int (length es) + int (length (concat (map snd rest))))"
      and e2: "extends ?js ts1 (n + length es) ts2 (concat (map snd rest))"
      by auto
    from extends_trans [OF e1 e2] x have e: "extends ?js ts n ts2 (concat (map snd (x # rest)))"
      by simp
    have len: "length (commas (map fst (x # rest))) = length t + 1 + length (commas (map fst rest))"
      using Cons x by simp
    from r1 r2 r3 have "run ?js (length pre) n (int c0) ts k
       = run ?js (length pre + length (commas (map fst (x # rest))))
           (n + length (concat (map snd (x # rest)))) s2 ts2
           (k + int (length (concat (map snd (x # rest)))))"
      using x len by (simp add: ac_simps)
    with e show ?thesis by blast
  qed
qed

lemma item_container:
  assumes "\<forall>x\<in>set xs. item_ok (fst x) (snd x)" "list_all is_space w"
    and br: "op = CHR ''['' \<and> cl = CHR '']'' \<and> ty = JSMN_ARRAY
       \<or> op = CHR ''{'' \<and> cl = CHR ''}'' \<and> ty = JSMN_OBJECT"
  shows "item_ok (op # w @ commas (map fst xs) @ [cl])
           ((ty, op # w @ commas (map fst xs) @ [cl]) # concat (map snd xs))"
proof (rule item_okI)
  fix pre post :: string and n :: nat and s :: int and ts :: "jsmntok_t list" and k :: int
  let ?body = "commas (map fst xs)"
  let ?x = "op # w @ ?body @ [cl]"
  let ?es = "concat (map snd xs)"
  assume h: "post = [] \<or> prim_delim (hd post)" "n + length ((ty, ?x) # ?es) \<le> length ts"
    "-1 \<le> s" "s < int n"
  let ?js = "pre @ ?x @ post"
  let ?t1 = "(bump s ts)[n := fresh_tok ty (int (length pre)) (-1)]"
  let ?a = "length pre + 1 + length w"
  from h(2) have n: "n < length ts" by simp
  from br have cl: "cl = CHR '']'' \<or> cl = CHR ''}''" by auto
  \<comment> \<open>the opening bracket and the whitespace after it\<close>
  have r1: "run ?js (length pre) n s ts k = run ?js ?a (n + 1) (int n) ?t1 (k + 1)"
  proof -
    from br have "op = CHR ''['' \<and> ty = JSMN_ARRAY \<or> op = CHR ''{'' \<and> ty = JSMN_OBJECT" by auto
    from run_open [OF n h(3,4) this, of pre "w @ ?body @ cl # post" k]
    have "run ?js (length pre) n s ts k = run ?js (length pre + 1) (n + 1) (int n) ?t1 (k + 1)"
      by simp
    also from run_ws [OF assms(2), of "pre @ [op]" "?body @ cl # post" "n + 1" "int n" ?t1 "k + 1"]
    have "run ?js (length pre + 1) (n + 1) (int n) ?t1 (k + 1) = run ?js ?a (n + 1) (int n) ?t1 (k + 1)"
      by simp
    finally show ?thesis .
  qed
  have t1n: "?t1 ! n = fresh_tok ty (int (length pre)) (-1)" using n by simp
  have old1: "core (?t1 ! i) = core (ts ! i)" if "i < n" for i using that by simp
  have in1: "inside ?t1 n (n + 1)"
    using br by (auto simp: inside_def t1n is_open_def is_container_def)
  \<comment> \<open>the elements\<close>
  from h(2) have room: "n + 1 + length ?es \<le> length ?t1" by simp
  from items_ok [OF assms(1) in1 room cl, of "pre @ op # w" post "k + 1"]
  obtain ts2 s2 where r2: "run ?js ?a (n + 1) (int n) ?t1 (k + 1)
       = run ?js (?a + length ?body) (n + 1 + length ?es) s2 ts2 (k + 1 + int (length ?es))"
    and e2: "extends ?js ?t1 (n + 1) ts2 ?es"
    by (auto simp: ac_simps)
  \<comment> \<open>the closing bracket\<close>
  from inside_extends [OF in1 e2] have in2: "inside ts2 n (n + 1 + length ?es)" .
  from e2 have c2: "core (ts2 ! n) = core (?t1 ! n)" and len2: "length ts2 = length ts"
    by (simp_all add: extends_def)
  from core_sel [OF c2] t1n have t2n: "tok_type (ts2 ! n) = ty" "tok_start (ts2 ! n) = int (length pre)"
    by simp_all
  let ?e = "int (?a + length ?body) + 1"
  let ?t3 = "ts2[n := (ts2 ! n)\<lparr>tok_end := ?e\<rparr>]"
  let ?s3 = "encl ?t3 (Suc n)"
  have r3: "run ?js (?a + length ?body) (n + 1 + length ?es) s2 ts2 (k + 1 + int (length ?es))
      = run ?js (?a + length ?body + 1) (n + 1 + length ?es) ?s3 ?t3 (k + 1 + int (length ?es))"
  proof -
    from br have "cl = CHR '']'' \<and> ty = JSMN_ARRAY \<or> cl = CHR ''}'' \<and> ty = JSMN_OBJECT" by auto
    from run_close [OF inside_scan(1) [OF in2] t2n(1) this, of "pre @ op # w @ ?body" post s2
        "k + 1 + int (length ?es)"]
    show ?thesis by (simp add: ac_simps)
  qed
  \<comment> \<open>the tokens\<close>
  have e: "extends ?js ts n ?t3 ((ty, ?x) # ?es)"
  proof -
    have A: "length ?t3 = length ts" "n + length ((ty, ?x) # ?es) \<le> length ts"
      using len2 h(2) by simp_all
    have B: "core (?t3 ! i) = core (ts ! i)" if "i < n" for i
    proof -
      from that e2 have "core (ts2 ! i) = core (?t1 ! i)" by (simp add: extends_def)
      with that old1 [OF that] show ?thesis by simp
    qed
    have sp: "span ?js ((ts2 ! n)\<lparr>tok_end := ?e\<rparr>) = ?x"
    proof -
      have "span (pre @ ?x @ post) (fresh_tok ty (int (length pre)) (int (length pre + length ?x))) = ?x"
        by (rule span_mid)
      moreover have "span ?js ((ts2 ! n)\<lparr>tok_end := ?e\<rparr>)
          = span ?js (fresh_tok ty (int (length pre)) (int (length pre + length ?x)))"
        using t2n by (simp add: span_def ac_simps)
      ultimately show ?thesis by simp
    qed
    have C: "tok_start (?t3 ! (n + i)) \<noteq> -1 \<and> tok_end (?t3 ! (n + i)) \<noteq> -1
        \<and> (tok_type (?t3 ! (n + i)), span ?js (?t3 ! (n + i))) = ((ty, ?x) # ?es) ! i"
      if i: "i < length ((ty, ?x) # ?es)" for i
    proof (cases i)
      case 0
      with n len2 t2n sp show ?thesis by simp
    next
      case (Suc j)
      with i have j: "j < length ?es" by simp
      with e2 have "tok_start (ts2 ! (n + 1 + j)) \<noteq> -1 \<and> tok_end (ts2 ! (n + 1 + j)) \<noteq> -1
        \<and> (tok_type (ts2 ! (n + 1 + j)), span ?js (ts2 ! (n + 1 + j))) = ?es ! j"
        unfolding extends_def by blast
      with Suc show ?thesis by simp
    qed
    from A B C show ?thesis unfolding extends_def by blast
  qed
  have sup: "?s3 = encl ts n"
  proof -
    from n len2 have "\<not> is_open (?t3 ! n)" by (simp add: is_open_def)
    then have "encl ?t3 (Suc n) = encl ?t3 n" by (rule encl_skip_closed)
    also from e have "encl ?t3 n = encl ts n" by (intro encl_cong) (simp add: extends_def)
    finally show ?thesis .
  qed
  from r1 r2 r3 have "run ?js (length pre) n s ts k
      = run ?js (length pre + length ?x) (n + length ((ty, ?x) # ?es)) ?s3 ?t3
          (k + int (length ((ty, ?x) # ?es)))"
    by (simp add: ac_simps)
  with e sup show "\<exists>ts' s'.
           run ?js (length pre) n s ts k
             = run ?js (length pre + length ?x) (n + length ((ty, ?x) # ?es)) s' ts'
                 (k + int (length ((ty, ?x) # ?es)))
           \<and> extends ?js ts n ts' ((ty, ?x) # ?es)
           \<and> (s' = s \<or> s' = encl ts n
               \<or> (int n \<le> s' \<and> s' < int (n + length ((ty, ?x) # ?es))
                   \<and> \<not> is_container (ts' ! nat s')))"
    by blast
qed

lemma valid_item:
  "valid v \<longrightarrow> item_ok (render v) (elements v)"
  "valid_member m \<longrightarrow> item_ok (render_member m) (member_elements m)"
proof (induction v and m)
  case (JPrim s)
  show ?case by (simp add: item_prim)
next
  case (JStr b)
  show ?case by (simp add: item_str)
next
  case (JArr w vs)
  show ?case
  proof
    assume v: "valid (JArr w vs)"
    let ?xs = "map (\<lambda>v. (render v, elements v)) vs"
    from v JArr have "\<forall>x\<in>set ?xs. item_ok (fst x) (snd x)"
      by (auto simp: list_all_iff)
    moreover from v have "list_all is_space w" by simp
    ultimately have "item_ok (CHR ''['' # w @ commas (map fst ?xs) @ [CHR '']''])
        ((JSMN_ARRAY, CHR ''['' # w @ commas (map fst ?xs) @ [CHR '']'']) # concat (map snd ?xs))"
      by (intro item_container) simp_all
    then show "item_ok (render (JArr w vs)) (elements (JArr w vs))"
      by (simp add: comp_def)
  qed
next
  case (JObj w ms)
  show ?case
  proof
    assume v: "valid (JObj w ms)"
    let ?xs = "map (\<lambda>m. (render_member m, member_elements m)) ms"
    from v JObj have "\<forall>x\<in>set ?xs. item_ok (fst x) (snd x)"
      by (auto simp: list_all_iff)
    moreover from v have "list_all is_space w" by simp
    ultimately have "item_ok (CHR ''{'' # w @ commas (map fst ?xs) @ [CHR ''}''])
        ((JSMN_OBJECT, CHR ''{'' # w @ commas (map fst ?xs) @ [CHR ''}'']) # concat (map snd ?xs))"
      by (intro item_container) simp_all
    then show "item_ok (render (JObj w ms)) (elements (JObj w ms))"
      by (simp add: comp_def)
  qed
next
  case (JPad a v b)
  then show ?case by (simp add: item_pad)
next
  case (Member a key b v)
  then show ?case by (simp add: item_member)
qed

section \<open>The claims\<close>

text \<open>
  C1. For every valid JSON document and every pool with room for all its tokens,
  \<open>jsmn_parse\<close> after \<open>jsmn_init\<close> returns the number of structural and leaf elements of
  the document, and the tokens it has filled are, in order, the elements of the document:
  each has the kind of its element, and the bytes \<open>[start, end)\<close> of the buffer are the
  text of the element, without the quotes for a string.
\<close>

theorem jsmn_parse_valid_json:
  assumes "valid v" "length (elements v) \<le> length ts"
  shows "\<exists>parser' ts'.
     jsmn_parse jsmn_init (render v) (Some ts) = (Inr (int (length (elements v))), parser', Some ts')
     \<and> map (\<lambda>t. (tok_type t, span (render v) t)) (take (length (elements v)) ts') = elements v"
proof -
  let ?js = "render v" and ?es = "elements v"
  let ?N = "length ?es"
  from assms(1) have ok: "item_ok ?js ?es" by (simp add: valid_item)
  from item_okD [OF ok, of "[]" 0 ts "-1" "[]" 0] assms(2)
  obtain ts' s' where r: "run ?js 0 0 (-1) ts 0 = run ?js (length ?js) ?N s' ts' (int ?N)"
    and e: "extends ?js ts 0 ts' ?es"
    by auto
  let ?p = "\<lparr>pos = length ?js, toknext = ?N, toksuper = s'\<rparr>"
  from r have "jsmn_parse_loop ?js jsmn_init (Some ts) (int (toknext jsmn_init)) = (Inr (int ?N), ?p, Some ts')"
    by (simp add: jsmn_init_def loop_unfold_end)
  note jsmn_parse_from_loop [OF this]
  moreover from e have closed: "tok_end (ts' ! i) \<noteq> -1" if "i < ?N" for i
    using that unfolding extends_def by fastforce
  then have "scan_back is_open ts' ?N = None"
    by (simp add: scan_back_None is_open_def)
  ultimately have p: "jsmn_parse jsmn_init ?js (Some ts) = (Inr (int ?N), ?p, Some ts')"
    by simp
  from e have len: "?N \<le> length ts'" by (simp add: extends_def)
  have "map (\<lambda>t. (tok_type t, span ?js t)) (take ?N ts') = ?es"
  proof (rule nth_equalityI)
    show "length (map (\<lambda>t. (tok_type t, span ?js t)) (take ?N ts')) = length ?es"
      using len by simp
  next
    fix i assume "i < length (map (\<lambda>t. (tok_type t, span ?js t)) (take ?N ts'))"
    with len have i: "i < ?N" by simp
    with e have "(tok_type (ts' ! (0 + i)), span ?js (ts' ! (0 + i))) = ?es ! i"
      unfolding extends_def by blast
    with i len show "map (\<lambda>t. (tok_type t, span ?js t)) (take ?N ts') ! i = ?es ! i"
      by simp
  qed
  with p show ?thesis by blast
qed

theorem jsmn_parse_valid_json_witness:
  "render example_doc = '' {\"a\" :[1, \"x\"], \"b\":null}'' @ [CHR 0x0A]
   \<and> elements example_doc =
       [(JSMN_OBJECT, ''{\"a\" :[1, \"x\"], \"b\":null}''), (JSMN_STRING, ''a''),
        (JSMN_ARRAY, ''[1, \"x\"]''), (JSMN_PRIMITIVE, ''1''), (JSMN_STRING, ''x''),
        (JSMN_STRING, ''b''), (JSMN_PRIMITIVE, ''null'')]
   \<and> (\<exists>parser' ts'.
         jsmn_parse jsmn_init (render example_doc) (Some (replicate 7 junk)) = (Inr 7, parser', Some ts')
         \<and> map (\<lambda>t. (tok_type t, span (render example_doc) t)) (take 7 ts') = elements example_doc)"
proof -
  have sb: "str_body ''a''" "str_body ''x''" "str_body ''b''"
    by (intro str_body.intros; simp add: quote_def backslash_def NUL_def)+
  have pt: "prim_text ''1''" "prim_text ''null''"
    by (simp_all add: prim_text_def prim_char_def prim_delim_def quote_def)
  have v: "valid example_doc"
    using sb pt by (simp add: example_doc_def is_space_def)
  have r: "render example_doc = '' {\"a\" :[1, \"x\"], \"b\":null}'' @ [CHR 0x0A]"
    by (simp add: example_doc_def quote_def)
  have e: "elements example_doc =
       [(JSMN_OBJECT, ''{\"a\" :[1, \"x\"], \"b\":null}''), (JSMN_STRING, ''a''),
        (JSMN_ARRAY, ''[1, \"x\"]''), (JSMN_PRIMITIVE, ''1''), (JSMN_STRING, ''x''),
        (JSMN_STRING, ''b''), (JSMN_PRIMITIVE, ''null'')]"
    by (simp add: example_doc_def quote_def)
  from e have l: "length (elements example_doc) \<le> length (replicate 7 junk)" by simp
  have n: "length (elements example_doc) = 7" by (simp add: e)
  from jsmn_parse_valid_json [OF v l]
  have "\<exists>parser' ts'.
         jsmn_parse jsmn_init (render example_doc) (Some (replicate 7 junk)) = (Inr 7, parser', Some ts')
         \<and> map (\<lambda>t. (tok_type t, span (render example_doc) t)) (take 7 ts') = elements example_doc"
    unfolding n by simp
  with r e show ?thesis by (intro conjI)
qed

text \<open>
  C5. For every input parsed with a non-null pool from a fresh parser: when \<open>jsmn_parse\<close>
  returns a count, every allocated token has \<open>end \<noteq> -1\<close>; and when the loop has run
  through the buffer and some allocated token still has \<open>start \<noteq> -1\<close> and \<open>end = -1\<close>,
  \<open>jsmn_parse\<close> returns \<open>JSMN_ERROR_PART\<close> (as for the input \<^verbatim>\<open>{\<close> alone).
\<close>

theorem jsmn_parse_closes_tokens:
  assumes "jsmn_parse jsmn_init js (Some ts) = (r, parser', tokens')"
  shows "(\<forall>n. r = Inr n \<longrightarrow>
            (\<exists>ts'. tokens' = Some ts' \<and> (\<forall>i < toknext parser'. tok_end (ts' ! i) \<noteq> -1)))
       \<and> (\<forall>n pl ts'. jsmn_parse_loop js jsmn_init (Some ts) 0 = (Inr n, pl, Some ts')
             \<and> (\<exists>i < toknext pl. tok_start (ts' ! i) \<noteq> -1 \<and> tok_end (ts' ! i) = -1)
            \<longrightarrow> r = Inl JSMN_ERROR_PART)"
proof (intro conjI allI impI)
  fix n assume "r = Inr n"
  with jsmn_parse_ok [OF assms] obtain ts' where ts': "tokens' = Some ts'"
      "parser_ok js parser' ts'" "\<forall>i < toknext parser'. \<not> is_open (ts' ! i)"
    by auto
  have "tok_end (ts' ! i) \<noteq> -1" if "i < toknext parser'" for i
  proof -
    from ts'(2) that have "0 \<le> tok_start (ts' ! i)" by (simp add: parser_ok_def tok_ok_def)
    with ts'(3) that show ?thesis by (auto simp: is_open_def)
  qed
  with ts'(1) show "\<exists>ts'. tokens' = Some ts' \<and> (\<forall>i < toknext parser'. tok_end (ts' ! i) \<noteq> -1)"
    by simp
next
  fix n pl ts'
  assume a: "jsmn_parse_loop js jsmn_init (Some ts) 0 = (Inr n, pl, Some ts')
      \<and> (\<exists>i < toknext pl. tok_start (ts' ! i) \<noteq> -1 \<and> tok_end (ts' ! i) = -1)"
  then have "scan_back is_open ts' (toknext pl) \<noteq> None"
    by (auto simp: scan_back_None is_open_def)
  with a assms show "r = Inl JSMN_ERROR_PART"
    by (auto simp: jsmn_parse_def jsmn_init_def split: option.splits)
qed

theorem jsmn_parse_closes_tokens_witness:
  "jsmn_parse jsmn_init ''{\"a\":1}'' (Some [junk, junk, junk, junk])
     = (Inr 3, \<lparr>pos = 7, toknext = 3, toksuper = -1\<rparr>,
        Some [\<lparr>tok_type = JSMN_OBJECT, tok_start = 0, tok_end = 7, tok_size = 1\<rparr>,
              \<lparr>tok_type = JSMN_STRING, tok_start = 2, tok_end = 3, tok_size = 1\<rparr>,
              \<lparr>tok_type = JSMN_PRIMITIVE, tok_start = 5, tok_end = 6, tok_size = 0\<rparr>, junk])
   \<and> jsmn_parse_loop ''{'' jsmn_init (Some [junk]) 0
        = (Inr 1, \<lparr>pos = 1, toknext = 1, toksuper = 0\<rparr>,
           Some [\<lparr>tok_type = JSMN_OBJECT, tok_start = 0, tok_end = -1, tok_size = 0\<rparr>])
   \<and> fst (jsmn_parse jsmn_init ''{'' (Some [junk])) = Inl JSMN_ERROR_PART"
proof -
  have a: "jsmn_parse jsmn_init ''{\"a\":1}'' (Some [junk, junk, junk, junk])
     = (Inr 3, \<lparr>pos = 7, toknext = 3, toksuper = -1\<rparr>,
        Some [\<lparr>tok_type = JSMN_OBJECT, tok_start = 0, tok_end = 7, tok_size = 1\<rparr>,
              \<lparr>tok_type = JSMN_STRING, tok_start = 2, tok_end = 3, tok_size = 1\<rparr>,
              \<lparr>tok_type = JSMN_PRIMITIVE, tok_start = 5, tok_end = 6, tok_size = 0\<rparr>, junk])"
    by code_simp
  have b: "jsmn_parse_loop ''{'' jsmn_init (Some [junk]) 0
        = (Inr 1, \<lparr>pos = 1, toknext = 1, toksuper = 0\<rparr>,
           Some [\<lparr>tok_type = JSMN_OBJECT, tok_start = 0, tok_end = -1, tok_size = 0\<rparr>])"
    by code_simp
  have c: "fst (jsmn_parse jsmn_init ''{'' (Some [junk])) = Inl JSMN_ERROR_PART"
    using jsmn_parse_closes_tokens [of "''{''" "[junk]" "fst (jsmn_parse jsmn_init ''{'' (Some [junk]))"
        "fst (snd (jsmn_parse jsmn_init ''{'' (Some [junk])))" "snd (snd (jsmn_parse jsmn_init ''{'' (Some [junk])))"] b
    by simp
  from jsmn_parse_closes_tokens [OF a] a b c show ?thesis by simp
qed


text \<open>
  C10. For every \<^verbatim>\<open>max_tokens\<close> below \<open>2^28\<close>, where the size of the block of tokens does
  not wrap around: when the parse succeeds with no token at all (the empty text) or with a
  first token that is not an Object, \<open>get_json_value\<close> returns \<^verbatim>\<open>NULL\<close> whatever the key,
  also when a String token with the bytes of the key is in the array.
\<close>

theorem get_json_value_root_not_object:
  assumes "unat max_tokens < 2 ^ 28"
    and "jsmn_parse jsmn_init (take (strlen json) json) (Some (map g [0..<unat max_tokens]))
             = (Inr ret, parser, Some ts)"
    and "ret < 1 \<or> tok_type (ts ! 0) \<noteq> JSMN_OBJECT"
  shows "get_json_value key (Some json) max_tokens (Some g) value_mem
           = Returns [Log_root_not_object] None"
  using get_json_value_parsed [OF assms(1,2)] assms(3) by auto

theorem get_json_value_root_not_object_witness:
  "jsmn_parse jsmn_init (take (strlen ''[\"k\",\"v\"]'') ''[\"k\",\"v\"]'') (Some (map junk_mem [0..<4]))
     = (Inr 3, \<lparr>pos = 9, toknext = 3, toksuper = -1\<rparr>,
        Some [\<lparr>tok_type = JSMN_ARRAY, tok_start = 0, tok_end = 9, tok_size = 2\<rparr>,
              \<lparr>tok_type = JSMN_STRING, tok_start = 2, tok_end = 3, tok_size = 0\<rparr>,
              \<lparr>tok_type = JSMN_STRING, tok_start = 6, tok_end = 7, tok_size = 0\<rparr>, junk])
   \<and> jsoneq ''[\"k\",\"v\"]'' \<lparr>tok_type = JSMN_STRING, tok_start = 2, tok_end = 3, tok_size = 0\<rparr> ''k'' = 0
   \<and> get_json_value ''k'' (Some ''[\"k\",\"v\"]'') 4 (Some junk_mem) True = Returns [Log_root_not_object] None
   \<and> jsmn_parse jsmn_init (take (strlen []) []) (Some (map junk_mem [0..<4]))
     = (Inr 0, \<lparr>pos = 0, toknext = 0, toksuper = -1\<rparr>, Some [junk, junk, junk, junk])
   \<and> get_json_value ''k'' (Some []) 4 (Some junk_mem) True = Returns [Log_root_not_object] None"
proof -
  have n: "unat (4 :: 32 word) < 2 ^ 28" "unat (4 :: 32 word) = 4" by simp_all
  have a: "jsmn_parse jsmn_init (take (strlen ''[\"k\",\"v\"]'') ''[\"k\",\"v\"]'') (Some (map junk_mem [0..<4]))
     = (Inr 3, \<lparr>pos = 9, toknext = 3, toksuper = -1\<rparr>,
        Some [\<lparr>tok_type = JSMN_ARRAY, tok_start = 0, tok_end = 9, tok_size = 2\<rparr>,
              \<lparr>tok_type = JSMN_STRING, tok_start = 2, tok_end = 3, tok_size = 0\<rparr>,
              \<lparr>tok_type = JSMN_STRING, tok_start = 6, tok_end = 7, tok_size = 0\<rparr>, junk])"
    by code_simp
  have b: "jsoneq ''[\"k\",\"v\"]'' \<lparr>tok_type = JSMN_STRING, tok_start = 2, tok_end = 3, tok_size = 0\<rparr> ''k'' = 0"
    by code_simp
  have c: "jsmn_parse jsmn_init (take (strlen []) []) (Some (map junk_mem [0..<4]))
     = (Inr 0, \<lparr>pos = 0, toknext = 0, toksuper = -1\<rparr>, Some [junk, junk, junk, junk])"
    by code_simp
  from a have a': "jsmn_parse jsmn_init (take (strlen ''[\"k\",\"v\"]'') ''[\"k\",\"v\"]'')
        (Some (map junk_mem [0..<unat (4 :: 32 word)]))
     = (Inr 3, \<lparr>pos = 9, toknext = 3, toksuper = -1\<rparr>,
        Some [\<lparr>tok_type = JSMN_ARRAY, tok_start = 0, tok_end = 9, tok_size = 2\<rparr>,
              \<lparr>tok_type = JSMN_STRING, tok_start = 2, tok_end = 3, tok_size = 0\<rparr>,
              \<lparr>tok_type = JSMN_STRING, tok_start = 6, tok_end = 7, tok_size = 0\<rparr>, junk])"
    by (simp only: n(2))
  from c have c': "jsmn_parse jsmn_init (take (strlen []) []) (Some (map junk_mem [0..<unat (4 :: 32 word)]))
     = (Inr 0, \<lparr>pos = 0, toknext = 0, toksuper = -1\<rparr>, Some [junk, junk, junk, junk])"
    by (simp only: n(2))
  from get_json_value_root_not_object [OF n(1) a', of "''k''" True]
    get_json_value_root_not_object [OF n(1) c', of "''k''" True] a b c
  show ?thesis by simp
qed


text \<open>
  C3, as the code has it. For every \<^verbatim>\<open>max_tokens\<close> below \<open>2^28\<close>, \<open>get_json_value\<close> returns
  \<^verbatim>\<open>NULL\<close> when the token array cannot be allocated, \<^verbatim>\<open>NULL\<close> when no token matches the
  key, \<^verbatim>\<open>NULL\<close> when a token matches and the copy cannot be allocated (the slot after the
  match being in the block and its length an \<^verbatim>\<open>int\<close>), and never a string when the copy
  cannot be allocated: the failures differ in the message logged, not in the result.
\<close>

theorem get_json_value_failures_null:
  assumes "unat max_tokens < 2 ^ 28"
  shows "get_json_value key (Some json) max_tokens None value_mem = Returns [Log_tokens_alloc_failed] None
   \<and> (jsmn_parse jsmn_init (take (strlen json) json) (Some (map g [0..<unat max_tokens]))
          = (Inr ret, parser, Some ts)
        \<and> 1 \<le> ret \<and> tok_type (ts ! 0) = JSMN_OBJECT
        \<and> (\<forall>i. 1 \<le> i \<and> i < ret \<longrightarrow> jsoneq json (ts ! nat i) key \<noteq> 0)
      \<longrightarrow> get_json_value key (Some json) max_tokens (Some g) value_mem
            = Returns [Log_key_not_found] None)
   \<and> (jsmn_parse jsmn_init (take (strlen json) json) (Some (map g [0..<unat max_tokens]))
          = (Inr ret, parser, Some ts)
        \<and> tok_type (ts ! 0) = JSMN_OBJECT
        \<and> 1 \<le> m \<and> int m < ret \<and> jsoneq json (ts ! m) key = 0
        \<and> (\<forall>i. 1 \<le> i \<and> i < int m \<longrightarrow> jsoneq json (ts ! nat i) key \<noteq> 0)
        \<and> m + 1 < unat max_tokens
        \<and> int_range (tok_end (ts ! (m + 1)) - tok_start (ts ! (m + 1)))
        \<and> int_range (tok_end (ts ! (m + 1)) - tok_start (ts ! (m + 1)) + 1)
      \<longrightarrow> get_json_value key (Some json) max_tokens (Some g) False
            = Returns [Log_value_alloc_failed] None)
   \<and> (\<forall>l v. get_json_value key (Some json) max_tokens (Some g) False \<noteq> Returns l (Some v))"
proof (intro conjI impI allI)
  show "get_json_value key (Some json) max_tokens None value_mem = Returns [Log_tokens_alloc_failed] None"
    by (simp add: get_json_value_def)
next
  assume a: "jsmn_parse jsmn_init (take (strlen json) json) (Some (map g [0..<unat max_tokens]))
          = (Inr ret, parser, Some ts)
        \<and> 1 \<le> ret \<and> tok_type (ts ! 0) = JSMN_OBJECT
        \<and> (\<forall>i. 1 \<le> i \<and> i < ret \<longrightarrow> jsoneq json (ts ! nat i) key \<noteq> 0)"
  then have p: "jsmn_parse jsmn_init (take (strlen json) json) (Some (map g [0..<unat max_tokens]))
          = (Inr ret, parser, Some ts)" ..
  from a have "find_key json ts key ret 1 = None"
    by (simp add: find_key_None)
  with a get_json_value_parsed [OF assms p, of key value_mem]
  show "get_json_value key (Some json) max_tokens (Some g) value_mem = Returns [Log_key_not_found] None"
    by simp
next
  assume a: "jsmn_parse jsmn_init (take (strlen json) json) (Some (map g [0..<unat max_tokens]))
          = (Inr ret, parser, Some ts)
        \<and> tok_type (ts ! 0) = JSMN_OBJECT
        \<and> 1 \<le> m \<and> int m < ret \<and> jsoneq json (ts ! m) key = 0
        \<and> (\<forall>i. 1 \<le> i \<and> i < int m \<longrightarrow> jsoneq json (ts ! nat i) key \<noteq> 0)
        \<and> m + 1 < unat max_tokens
        \<and> int_range (tok_end (ts ! (m + 1)) - tok_start (ts ! (m + 1)))
        \<and> int_range (tok_end (ts ! (m + 1)) - tok_start (ts ! (m + 1)) + 1)"
  then have p: "jsmn_parse jsmn_init (take (strlen json) json) (Some (map g [0..<unat max_tokens]))
          = (Inr ret, parser, Some ts)" ..
  from jsmn_parse_ok [OF p] have len: "length ts = unat max_tokens" by auto
  from a have "find_key json ts key ret 1 = Some m"
    by (intro find_key_first) simp_all
  moreover from a len have "copy_value json ts m False = Returns [Log_value_alloc_failed] None"
    by (simp add: copy_value_def Let_def)
  ultimately show "get_json_value key (Some json) max_tokens (Some g) False
      = Returns [Log_value_alloc_failed] None"
    using a get_json_value_parsed [OF assms p, of key False] by simp
next
  fix l v
  show "get_json_value key (Some json) max_tokens (Some g) False \<noteq> Returns l (Some v)"
    by (rule get_json_value_no_mem)
qed

theorem get_json_value_failures_null_witness:
  "get_json_value ''b'' (Some ''{\"a\":1}'') 4 None True = Returns [Log_tokens_alloc_failed] None
   \<and> get_json_value ''b'' (Some ''{\"a\":1}'') 4 (Some junk_mem) True = Returns [Log_key_not_found] None
   \<and> get_json_value ''k'' (Some ''{\"a\":\"k\"}'') 4 (Some junk_mem) False
        = Returns [Log_value_alloc_failed] None"
proof -
  have n: "unat (4 :: 32 word) < 2 ^ 28" "unat (4 :: 32 word) = 4" by simp_all
  let ?ts = "[\<lparr>tok_type = JSMN_OBJECT, tok_start = 0, tok_end = 7, tok_size = 1\<rparr>,
              \<lparr>tok_type = JSMN_STRING, tok_start = 2, tok_end = 3, tok_size = 1\<rparr>,
              \<lparr>tok_type = JSMN_PRIMITIVE, tok_start = 5, tok_end = 6, tok_size = 0\<rparr>, junk]"
  let ?us = "[\<lparr>tok_type = JSMN_OBJECT, tok_start = 0, tok_end = 9, tok_size = 1\<rparr>,
              \<lparr>tok_type = JSMN_STRING, tok_start = 2, tok_end = 3, tok_size = 1\<rparr>,
              \<lparr>tok_type = JSMN_STRING, tok_start = 6, tok_end = 7, tok_size = 0\<rparr>, junk]"
  have "jsmn_parse jsmn_init (take (strlen ''{\"a\":1}'') ''{\"a\":1}'') (Some (map junk_mem [0..<4]))
     = (Inr 3, \<lparr>pos = 7, toknext = 3, toksuper = -1\<rparr>, Some ?ts)"
    by code_simp
  then have a: "jsmn_parse jsmn_init (take (strlen ''{\"a\":1}'') ''{\"a\":1}'')
       (Some (map junk_mem [0..<unat (4 :: 32 word)]))
     = (Inr 3, \<lparr>pos = 7, toknext = 3, toksuper = -1\<rparr>, Some ?ts)"
    by (simp only: n(2))
  have b: "jsoneq ''{\"a\":1}'' (?ts ! nat i) ''b'' \<noteq> 0" if "1 \<le> i \<and> i < 3" for i
  proof -
    from that have "i = 1 \<or> i = 2" by auto
    moreover have "jsoneq ''{\"a\":1}'' (?ts ! 1) ''b'' \<noteq> 0" by code_simp
    moreover have "jsoneq ''{\"a\":1}'' (?ts ! 2) ''b'' \<noteq> 0" by code_simp
    ultimately show ?thesis by (auto simp: numeral_2_eq_2)
  qed
  have "jsmn_parse jsmn_init (take (strlen ''{\"a\":\"k\"}'') ''{\"a\":\"k\"}'') (Some (map junk_mem [0..<4]))
     = (Inr 3, \<lparr>pos = 9, toknext = 3, toksuper = -1\<rparr>, Some ?us)"
    by code_simp
  then have c: "jsmn_parse jsmn_init (take (strlen ''{\"a\":\"k\"}'') ''{\"a\":\"k\"}'')
       (Some (map junk_mem [0..<unat (4 :: 32 word)]))
     = (Inr 3, \<lparr>pos = 9, toknext = 3, toksuper = -1\<rparr>, Some ?us)"
    by (simp only: n(2))
  have d: "jsoneq ''{\"a\":\"k\"}'' (?us ! 2) ''k'' = 0" by code_simp
  have e: "jsoneq ''{\"a\":\"k\"}'' (?us ! nat i) ''k'' \<noteq> 0" if "1 \<le> i \<and> i < int 2" for i
  proof -
    from that have "i = 1" by auto
    moreover have "jsoneq ''{\"a\":\"k\"}'' (?us ! 1) ''k'' \<noteq> 0" by code_simp
    ultimately show ?thesis by simp
  qed
  have f: "int_range (tok_end (?us ! (2 + 1)) - tok_start (?us ! (2 + 1)))"
      "int_range (tok_end (?us ! (2 + 1)) - tok_start (?us ! (2 + 1)) + 1)"
    by (simp_all add: int_range_def junk_def)
  from get_json_value_failures_null [OF n(1), where key = "''b''" and json = "''{\"a\":1}''"
      and value_mem = True and g = junk_mem and ret = 3
      and parser = "\<lparr>pos = 7, toknext = 3, toksuper = -1\<rparr>" and ts = ?ts and m = 0] a b
  have 1: "get_json_value ''b'' (Some ''{\"a\":1}'') 4 None True = Returns [Log_tokens_alloc_failed] None"
    and 2: "get_json_value ''b'' (Some ''{\"a\":1}'') 4 (Some junk_mem) True = Returns [Log_key_not_found] None"
    by simp_all
  from get_json_value_failures_null [OF n(1), where key = "''k''" and json = "''{\"a\":\"k\"}''"
      and value_mem = True and g = junk_mem and ret = 3
      and parser = "\<lparr>pos = 9, toknext = 3, toksuper = -1\<rparr>" and ts = ?us and m = 2] c d e f
  have 3: "get_json_value ''k'' (Some ''{\"a\":\"k\"}'') 4 (Some junk_mem) False
        = Returns [Log_value_alloc_failed] None"
    by (simp add: n(2))
  from 1 2 3 show ?thesis by simp
qed


text \<open>
  C3 as stated fails: for the text \<^verbatim>\<open>{"a":1}\<close> the result is the same null pointer when
  the token array is not allocated, when the key \<^verbatim>\<open>c\<close> is absent and when the copy of the
  value of \<^verbatim>\<open>a\<close> is not allocated.
\<close>

theorem get_json_value_failures_alike:
  "get_json_value ''c'' (Some ''{\"a\":1}'') 4 None True = Returns [Log_tokens_alloc_failed] None
   \<and> get_json_value ''c'' (Some ''{\"a\":1}'') 4 (Some junk_mem) True = Returns [Log_key_not_found] None
   \<and> get_json_value ''a'' (Some ''{\"a\":1}'') 4 (Some junk_mem) False = Returns [Log_value_alloc_failed] None"
  by code_simp


text \<open>
  C4, as the code has it. For every \<^verbatim>\<open>max_tokens\<close> below \<open>2^28\<close> and every text shorter than
  \<open>2^31 - 1\<close> bytes (the length of the value and the size of its copy are an \<^verbatim>\<open>int\<close>):
  after a successful parse whose first token is an Object, the scan visits every token
  after the first, at any depth, in array order; at the first String token whose bytes
  equal the key, and when the next slot holds a token of the parse and the copy can be
  allocated, the result is a fresh copy of the bytes of that next token.
\<close>

theorem get_json_value_first_match:
  assumes "unat max_tokens < 2 ^ 28" and "strlen json < 2 ^ 31 - 1"
    and "jsmn_parse jsmn_init (take (strlen json) json) (Some (map g [0..<unat max_tokens]))
             = (Inr ret, parser, Some ts)"
    and "tok_type (ts ! 0) = JSMN_OBJECT"
    and "1 \<le> i" and "int i + 1 < ret"
    and "tok_type (ts ! i) = JSMN_STRING" and "span json (ts ! i) = c_str key"
    and "\<forall>j. 1 \<le> j \<and> j < i \<longrightarrow> \<not> (tok_type (ts ! j) = JSMN_STRING \<and> span json (ts ! j) = c_str key)"
    and "value_mem"
  shows "get_json_value key (Some json) max_tokens (Some g) value_mem
           = Returns [] (Some (span json (ts ! (i + 1))))"
proof -
  let ?js = "take (strlen json) json"
  from jsmn_parse_ok [OF assms(3)] have ok: "parser_ok ?js parser ts" "ret = int (toknext parser)"
      "\<forall>k < toknext parser. \<not> is_open (ts ! k)" "length ts = unat max_tokens"
    by auto
  have len: "length ?js = strlen json" using strlen_le [of json] by simp
  have tok: "0 \<le> tok_start (ts ! k) \<and> tok_start (ts ! k) \<le> tok_end (ts ! k)
       \<and> tok_end (ts ! k) \<le> int (strlen json)" if "int k < ret" for k
  proof -
    from that ok(2) have k: "k < toknext parser" by simp
    with ok(1) have "tok_ok (pos parser) (ts ! k)" "pos parser \<le> strlen json"
      by (simp_all add: parser_ok_def len)
    moreover from k ok(3) have "\<not> is_open (ts ! k)" by simp
    ultimately show ?thesis by (auto simp: tok_ok_def is_open_def)
  qed
  have eq: "jsoneq json (ts ! k) key = 0 \<longleftrightarrow> tok_type (ts ! k) = JSMN_STRING \<and> span json (ts ! k) = c_str key"
    if "int k < ret" for k
    using tok [OF that] by (intro jsoneq_span) simp_all
  have "find_key json ts key ret 1 = Some i"
  proof (rule find_key_first)
    show "1 \<le> i" by (rule assms(5))
    show "int i < ret" using assms(6) by simp
    then show "jsoneq json (ts ! i) key = 0" using eq [of i] assms(7,8) by simp
    show "\<forall>j. 1 \<le> j \<and> j < int i \<longrightarrow> jsoneq json (ts ! nat j) key \<noteq> 0"
    proof (intro allI impI)
      fix j :: int assume j: "1 \<le> j \<and> j < int i"
      then have n: "1 \<le> nat j \<and> nat j < i" by linarith
      from j assms(6) have "int (nat j) < ret" by simp
      from eq [OF this] assms(9) [rule_format, OF n]
      show "jsoneq json (ts ! nat j) key \<noteq> 0" by simp
    qed
  qed
  moreover have "copy_value json ts i value_mem = Returns [] (Some (span json (ts ! (i + 1))))"
  proof -
    from assms(6) have "int (i + 1) < ret" by simp
    from tok [OF this] have t: "0 \<le> tok_start (ts ! (i + 1))" "tok_start (ts ! (i + 1)) \<le> tok_end (ts ! (i + 1))"
        "tok_end (ts ! (i + 1)) \<le> int (strlen json)"
      by auto
    from t assms(2) have r: "int_range (tok_end (ts ! (i + 1)) - tok_start (ts ! (i + 1)))"
        "int_range (tok_end (ts ! (i + 1)) - tok_start (ts ! (i + 1)) + 1)"
      by (simp_all add: int_range_def)
    from assms(6) ok(2) ok(1) have "i + 1 < length ts" by (simp add: parser_ok_def)
    moreover have "take (nat (tok_end (ts ! (i + 1)) - tok_start (ts ! (i + 1))))
          (drop (nat (tok_start (ts ! (i + 1)))) (take (strlen json) json)) = span json (ts ! (i + 1))"
    proof -
      from t have "nat (tok_end (ts ! (i + 1)) - tok_start (ts ! (i + 1)))
          \<le> strlen json - nat (tok_start (ts ! (i + 1)))" by arith
      then show ?thesis by (simp add: span_def drop_take min_absorb1)
    qed
    ultimately show ?thesis using t r assms(10)
      by (simp add: copy_value_def Let_def)
  qed
  ultimately show ?thesis using assms(4,6) get_json_value_parsed [OF assms(1,3), of key value_mem]
    by simp
qed

theorem get_json_value_first_match_witness:
  "get_json_value ''k'' (Some ''{\"x\":\"k\",\"k\":\"v\"}'') 6 (Some junk_mem) True
     = Returns [] (Some ''k'')"
proof -
  have n: "unat (6 :: 32 word) < 2 ^ 28" "unat (6 :: 32 word) = 6" by simp_all
  let ?json = "''{\"x\":\"k\",\"k\":\"v\"}''"
  let ?ts = "[\<lparr>tok_type = JSMN_OBJECT, tok_start = 0, tok_end = 17, tok_size = 2\<rparr>,
    \<lparr>tok_type = JSMN_STRING, tok_start = 2, tok_end = 3, tok_size = 1\<rparr>,
    \<lparr>tok_type = JSMN_STRING, tok_start = 6, tok_end = 7, tok_size = 0\<rparr>,
    \<lparr>tok_type = JSMN_STRING, tok_start = 10, tok_end = 11, tok_size = 1\<rparr>,
    \<lparr>tok_type = JSMN_STRING, tok_start = 14, tok_end = 15, tok_size = 0\<rparr>, junk]"
  have "jsmn_parse jsmn_init (take (strlen ?json) ?json) (Some (map junk_mem [0..<6]))
     = (Inr 5, \<lparr>pos = 17, toknext = 5, toksuper = -1\<rparr>, Some ?ts)"
    by code_simp
  then have a: "jsmn_parse jsmn_init (take (strlen ?json) ?json) (Some (map junk_mem [0..<unat (6 :: 32 word)]))
     = (Inr 5, \<lparr>pos = 17, toknext = 5, toksuper = -1\<rparr>, Some ?ts)"
    by (simp only: n(2))
  have s: "strlen ?json < 2 ^ 31 - 1" by (simp add: strlen_def NUL_def)
  have b: "tok_type (?ts ! 0) = JSMN_OBJECT" by simp
  have c: "tok_type (?ts ! 2) = JSMN_STRING" by simp
  have d: "span ?json (?ts ! 2) = c_str ''k''" by code_simp
  have e: "\<forall>j. 1 \<le> j \<and> j < 2 \<longrightarrow>
      \<not> (tok_type (?ts ! j) = JSMN_STRING \<and> span ?json (?ts ! j) = c_str ''k'')"
  proof (intro allI impI)
    fix j :: nat assume "1 \<le> j \<and> j < 2"
    then have "j = 1" by simp
    moreover have "span ?json (?ts ! 1) \<noteq> c_str ''k''" by code_simp
    ultimately show "\<not> (tok_type (?ts ! j) = JSMN_STRING \<and> span ?json (?ts ! j) = c_str ''k'')"
      by simp
  qed
  have f: "span ?json (?ts ! (2 + 1)) = ''k''" by code_simp
  from get_json_value_first_match [OF n(1) s a b _ _ c d e, of True] f show ?thesis by simp
qed

text \<open>
  C4 as stated fails: in \<^verbatim>\<open>{"a":{"b":1}}\<close> no top-level String token has the bytes of the
  key \<^verbatim>\<open>b\<close>, and the lookup still returns \<^verbatim>\<open>1\<close>, the value of the nested key.
\<close>

theorem get_json_value_nested_match:
  "jsmn_parse jsmn_init ''{\"a\":{\"b\":1}}'' (Some (map junk_mem [0..<6]))
     = (Inr 5, \<lparr>pos = 13, toknext = 5, toksuper = -1\<rparr>,
        Some [\<lparr>tok_type = JSMN_OBJECT, tok_start = 0, tok_end = 13, tok_size = 1\<rparr>,
              \<lparr>tok_type = JSMN_STRING, tok_start = 2, tok_end = 3, tok_size = 1\<rparr>,
              \<lparr>tok_type = JSMN_OBJECT, tok_start = 5, tok_end = 12, tok_size = 1\<rparr>,
              \<lparr>tok_type = JSMN_STRING, tok_start = 7, tok_end = 8, tok_size = 1\<rparr>,
              \<lparr>tok_type = JSMN_PRIMITIVE, tok_start = 10, tok_end = 11, tok_size = 0\<rparr>, junk])
   \<and> top_level_matches ''{\"a\":{\"b\":1}}''
        [\<lparr>tok_type = JSMN_OBJECT, tok_start = 0, tok_end = 13, tok_size = 1\<rparr>,
         \<lparr>tok_type = JSMN_STRING, tok_start = 2, tok_end = 3, tok_size = 1\<rparr>,
         \<lparr>tok_type = JSMN_OBJECT, tok_start = 5, tok_end = 12, tok_size = 1\<rparr>,
         \<lparr>tok_type = JSMN_STRING, tok_start = 7, tok_end = 8, tok_size = 1\<rparr>,
         \<lparr>tok_type = JSMN_PRIMITIVE, tok_start = 10, tok_end = 11, tok_size = 0\<rparr>, junk] ''b'' 5 = []
   \<and> get_json_value ''b'' (Some ''{\"a\":{\"b\":1}}'') 6 (Some junk_mem) True
        = Returns [] (Some ''1'')"
  by code_simp


text \<open>
  C8. For every parser positioned at an opening quote (at offset \<open>length pre\<close>): when the
  rest of the buffer is string contents with no unescaped closing quote, possibly ending
  in an escape cut short by the end of the buffer, \<open>jsmn_parse_string\<close> returns
  \<open>JSMN_ERROR_PART\<close>, and the parser (its cursor on the opening quote) and the pool are
  as they were at entry. The text \<^verbatim>\<open>"abc\<close> is such a case.
\<close>

theorem jsmn_parse_string_unterminated:
  assumes "pos parser = length pre" and "str_body body" and "open_tail t"
  shows "jsmn_parse_string parser (pre @ quote # body @ t) tokens
           = (Inl JSMN_ERROR_PART, parser, tokens)"
proof -
  from string_loop_open [OF assms(2,3), of "pre @ [quote]"] assms(1)
  have "jsmn_parse_string_loop (pre @ quote # body @ t) (pos parser + 1) = Inl JSMN_ERROR_PART"
    by simp
  then show ?thesis by (simp add: jsmn_parse_string_def)
qed

theorem jsmn_parse_string_unterminated_witness:
  "jsmn_parse_string \<lparr>pos = 1, toknext = 0, toksuper = -1\<rparr> ''[\"abc'' (Some [junk])
     = (Inl JSMN_ERROR_PART, \<lparr>pos = 1, toknext = 0, toksuper = -1\<rparr>, Some [junk])"
proof -
  have "str_body ''abc''"
    by (intro str_body.intros) (simp_all add: quote_def backslash_def NUL_def)
  moreover have "open_tail []" by (simp add: open_tail_def)
  ultimately show ?thesis
    using jsmn_parse_string_unterminated [of "\<lparr>pos = 1, toknext = 0, toksuper = -1\<rparr>" "''[''"
        "''abc''" "[]" "Some [junk]"]
    by (simp add: quote_def)
qed


text \<open>
  C9, as the code has it. When \<^verbatim>\<open>\u\<close> in a string is followed by fewer than four hex
  digits \<open>hs\<close> and then by a byte that is neither a hex digit nor \<open>NUL\<close>, the scanner
  returns \<open>JSMN_ERROR_INVAL\<close>; when the buffer ends (or a \<open>NUL\<close> byte stands) after \<open>hs\<close>,
  it returns \<open>JSMN_ERROR_PART\<close>. In both cases the parser and the pool are as they were at
  entry, the cursor on the opening quote.
\<close>

theorem jsmn_parse_string_bad_unicode:
  assumes "pos parser = length pre" and "str_body body"
    and "length hs < 4" and "list_all is_hex hs"
  shows "(rest \<noteq> [] \<and> hd rest \<noteq> NUL \<and> \<not> is_hex (hd rest) \<longrightarrow>
            jsmn_parse_string parser (pre @ quote # body @ backslash # CHR ''u'' # hs @ rest) tokens
              = (Inl JSMN_ERROR_INVAL, parser, tokens))
       \<and> (rest = [] \<or> hd rest = NUL \<longrightarrow>
            jsmn_parse_string parser (pre @ quote # body @ backslash # CHR ''u'' # hs @ rest) tokens
              = (Inl JSMN_ERROR_PART, parser, tokens))"
proof -
  let ?js = "pre @ quote # body @ backslash # CHR ''u'' # hs @ rest"
  have skip: "jsmn_parse_string_loop ?js (pos parser + 1)
      = jsmn_parse_string_loop ?js (length (pre @ quote # body))"
    using string_loop_body [OF assms(2), of "pre @ [quote]" "backslash # CHR ''u'' # hs @ rest"] assms(1)
    by simp
  note hex = string_loop_short_hex [OF assms(4,3), where rest = rest and pre = "pre @ quote # body"]
  show ?thesis
  proof (intro conjI impI)
    assume "rest \<noteq> [] \<and> hd rest \<noteq> NUL \<and> \<not> is_hex (hd rest)"
    with hex have "jsmn_parse_string_loop ?js (length (pre @ quote # body)) = Inl JSMN_ERROR_INVAL"
      by simp
    with skip show "jsmn_parse_string parser ?js tokens = (Inl JSMN_ERROR_INVAL, parser, tokens)"
      by (simp add: jsmn_parse_string_def)
  next
    assume "rest = [] \<or> hd rest = NUL"
    with hex have "jsmn_parse_string_loop ?js (length (pre @ quote # body)) = Inl JSMN_ERROR_PART"
      by simp
    with skip show "jsmn_parse_string parser ?js tokens = (Inl JSMN_ERROR_PART, parser, tokens)"
      by (simp add: jsmn_parse_string_def)
  qed
qed


theorem jsmn_parse_string_bad_unicode_witness:
  "jsmn_parse_string jsmn_init [quote, CHR ''a'', backslash, CHR ''u'', CHR ''1'', CHR ''2'', CHR ''x'', quote]
       (Some [junk])
     = (Inl JSMN_ERROR_INVAL, jsmn_init, Some [junk])
   \<and> jsmn_parse_string jsmn_init [quote, CHR ''a'', backslash, CHR ''u'', CHR ''1'', CHR ''2'', CHR ''f'']
       (Some [junk])
     = (Inl JSMN_ERROR_PART, jsmn_init, Some [junk])"
proof -
  have b: "str_body ''a''"
    by (intro str_body.intros) (simp_all add: quote_def backslash_def NUL_def)
  have p: "pos jsmn_init = length ([] :: string)" by (simp add: jsmn_init_def)
  have h2: "length ''12'' < 4" "list_all is_hex ''12''" by (simp_all add: is_hex_def)
  have h3: "length ''12f'' < 4" "list_all is_hex ''12f''" by (simp_all add: is_hex_def)
  from jsmn_parse_string_bad_unicode [OF p b h2, of "[CHR ''x'', quote]" "Some [junk]"]
    jsmn_parse_string_bad_unicode [OF p b h3, of "[]" "Some [junk]"]
  show ?thesis by (simp add: is_hex_def NUL_def)
qed

text \<open>
  C9 as stated fails: in the buffer \<^verbatim>\<open>"\u12\<close> the escape is not followed by four hex
  digits, and the scanner returns \<open>JSMN_ERROR_PART\<close>, not \<open>JSMN_ERROR_INVAL\<close>.
\<close>

theorem jsmn_parse_string_truncated_unicode:
  "jsmn_parse_string jsmn_init [quote, backslash, CHR ''u'', CHR ''1'', CHR ''2''] (Some [junk])
     = (Inl JSMN_ERROR_PART, jsmn_init, Some [junk])"
  by code_simp


text \<open>
  C6, as the code has it. From a fresh parser, whenever a parse with a pool returns a
  count, the dry run (null pool) over the same input returns the same count; and when the
  dry run returns the count \<open>n\<close>, a parse with a pool of at least \<open>n\<close> slots never runs
  out of tokens: it returns \<open>n\<close>, or it fails with \<open>JSMN_ERROR_INVAL\<close> or
  \<open>JSMN_ERROR_PART\<close>, the bracket checks that the dry run does not make.
\<close>

theorem dry_run_count:
  "(\<forall>n p tk. jsmn_parse jsmn_init js (Some ts) = (Inr n, p, tk)
       \<longrightarrow> fst (jsmn_parse jsmn_init js None) = Inr n)
   \<and> (\<forall>n. fst (jsmn_parse jsmn_init js None) = Inr n \<and> n \<le> int (length ts) \<longrightarrow>
         fst (jsmn_parse jsmn_init js (Some ts)) = Inr n
         \<or> fst (jsmn_parse jsmn_init js (Some ts)) = Inl JSMN_ERROR_INVAL
         \<or> fst (jsmn_parse jsmn_init js (Some ts)) = Inl JSMN_ERROR_PART)"
proof -
  obtain rd r where dryp: "fst (jsmn_parse jsmn_init js None) = rd"
    and realp: "fst (jsmn_parse jsmn_init js (Some ts)) = r
      \<or> (\<exists>n. r = Inr n) \<and> fst (jsmn_parse jsmn_init js (Some ts)) = Inl JSMN_ERROR_PART"
    and rel: "r = rd \<or> r = Inl JSMN_ERROR_INVAL
        \<or> (r = Inl JSMN_ERROR_NOMEM \<and> (\<forall>n. rd = Inr n \<longrightarrow> int (length ts) < n))"
    by (rule dry_real_parse)
  show ?thesis
  proof (intro conjI allI impI)
    fix n p tk assume "jsmn_parse jsmn_init js (Some ts) = (Inr n, p, tk)"
    with realp have "r = Inr n" by auto
    with rel dryp show "fst (jsmn_parse jsmn_init js None) = Inr n" by auto
  next
    fix n assume "fst (jsmn_parse jsmn_init js None) = Inr n \<and> n \<le> int (length ts)"
    with dryp have "rd = Inr n" "n \<le> int (length ts)" by simp_all
    with rel have "r = Inr n \<or> r = Inl JSMN_ERROR_INVAL" by auto
    with realp show "fst (jsmn_parse jsmn_init js (Some ts)) = Inr n
         \<or> fst (jsmn_parse jsmn_init js (Some ts)) = Inl JSMN_ERROR_INVAL
         \<or> fst (jsmn_parse jsmn_init js (Some ts)) = Inl JSMN_ERROR_PART"
      by auto
  qed
qed

theorem dry_run_count_witness:
  "fst (jsmn_parse jsmn_init ''{\"a\":1}'' (Some [junk, junk, junk, junk])) = Inr 3
   \<and> fst (jsmn_parse jsmn_init ''{\"a\":1}'' None) = Inr 3"
proof -
  have a: "jsmn_parse jsmn_init ''{\"a\":1}'' (Some [junk, junk, junk, junk])
     = (Inr 3, \<lparr>pos = 7, toknext = 3, toksuper = -1\<rparr>,
        Some [\<lparr>tok_type = JSMN_OBJECT, tok_start = 0, tok_end = 7, tok_size = 1\<rparr>,
              \<lparr>tok_type = JSMN_STRING, tok_start = 2, tok_end = 3, tok_size = 1\<rparr>,
              \<lparr>tok_type = JSMN_PRIMITIVE, tok_start = 5, tok_end = 6, tok_size = 0\<rparr>, junk])"
    by code_simp
  from dry_run_count [of "''{\"a\":1}''" "[junk, junk, junk, junk]", THEN conjunct1, rule_format, OF a] a
  show ?thesis by simp
qed


text \<open>
  C6 as stated fails: the dry run skips the matching of brackets. For \<^verbatim>\<open>}\<close> it returns 0
  and the parse with a pool returns \<open>JSMN_ERROR_INVAL\<close>; for \<^verbatim>\<open>{\<close> it returns 1 and the
  parse with a pool of one slot returns \<open>JSMN_ERROR_PART\<close>.
\<close>

theorem dry_run_skips_brackets:
  "fst (jsmn_parse jsmn_init ''}'' None) = Inr 0
   \<and> fst (jsmn_parse jsmn_init ''}'' (Some [junk])) = Inl JSMN_ERROR_INVAL
   \<and> fst (jsmn_parse jsmn_init ''{'' None) = Inr 1
   \<and> fst (jsmn_parse jsmn_init ''{'' (Some [junk])) = Inl JSMN_ERROR_PART"
  by code_simp



text \<open>
  C7. When a parse of the input from a fresh parser returns the count \<open>N\<close> with some pool,
  the parse with any pool of fewer than \<open>N\<close> slots returns \<open>JSMN_ERROR_NOMEM\<close>. And when
  the count \<open>N\<close> is the one a dry run returns, the parse with a pool of fewer than \<open>N\<close>
  slots returns an error, never a count.
\<close>

theorem pool_too_small:
  "(\<forall>N pL tkL. jsmn_parse jsmn_init js (Some L) = (Inr N, pL, tkL) \<and> int (length S) < N
       \<longrightarrow> fst (jsmn_parse jsmn_init js (Some S)) = Inl JSMN_ERROR_NOMEM)
   \<and> (\<forall>N. fst (jsmn_parse jsmn_init js None) = Inr N \<and> int (length S) < N
       \<longrightarrow> (\<exists>e. fst (jsmn_parse jsmn_init js (Some S)) = Inl e))"
proof (intro conjI allI impI)
  fix N pL tkL
  assume a: "jsmn_parse jsmn_init js (Some L) = (Inr N, pL, tkL) \<and> int (length S) < N"
  from jsmn_parse_ok [of js L "Inr N" pL tkL] a have "N = int (toknext pL)" "toknext pL \<le> length L"
    by (auto simp: parser_ok_def)
  with a have le: "length S \<le> length L" by simp
  obtain rS pS tkS where S: "jsmn_parse jsmn_init js (Some S) = (rS, pS, tkS)"
    by (metis prod_cases3)
  from pool_sim_parse [OF S le] a
  have "(rS = Inr N \<and> pS = pL) \<or> rS = Inl JSMN_ERROR_NOMEM" by auto
  moreover have "\<not> (rS = Inr N \<and> pS = pL)"
  proof
    assume "rS = Inr N \<and> pS = pL"
    with jsmn_parse_ok [OF S] have "N = int (toknext pS)" "toknext pS \<le> length S"
      by (auto simp: parser_ok_def)
    with a show False by simp
  qed
  ultimately show "fst (jsmn_parse jsmn_init js (Some S)) = Inl JSMN_ERROR_NOMEM"
    using S by simp
next
  fix N assume a: "fst (jsmn_parse jsmn_init js None) = Inr N \<and> int (length S) < N"
  obtain rS pS tkS where S: "jsmn_parse jsmn_init js (Some S) = (rS, pS, tkS)"
    by (metis prod_cases3)
  have "rS \<noteq> Inr m" for m
  proof
    assume m: "rS = Inr m"
    with jsmn_parse_ok [OF S] have "m = int (toknext pS)" "toknext pS \<le> length S"
      by (auto simp: parser_ok_def)
    moreover have "m = N"
    proof -
      obtain rd r where d: "fst (jsmn_parse jsmn_init js None) = rd"
        and r: "fst (jsmn_parse jsmn_init js (Some S)) = r
          \<or> (\<exists>n. r = Inr n) \<and> fst (jsmn_parse jsmn_init js (Some S)) = Inl JSMN_ERROR_PART"
        and rel: "r = rd \<or> r = Inl JSMN_ERROR_INVAL
          \<or> (r = Inl JSMN_ERROR_NOMEM \<and> (\<forall>n. rd = Inr n \<longrightarrow> int (length S) < n))"
        by (rule dry_real_parse)
      from r S m have "r = Inr m" by auto
      with rel d a show ?thesis by auto
    qed
    ultimately show False using a by simp
  qed
  with S show "\<exists>e. fst (jsmn_parse jsmn_init js (Some S)) = Inl e"
    by (cases rS) auto
qed


theorem pool_too_small_witness:
  "fst (jsmn_parse jsmn_init ''{\"a\":1}'' (Some [junk, junk])) = Inl JSMN_ERROR_NOMEM
   \<and> fst (jsmn_parse jsmn_init ''{\"a\":1}'' (Some [junk, junk, junk, junk])) = Inr 3"
proof -
  have a: "jsmn_parse jsmn_init ''{\"a\":1}'' (Some [junk, junk, junk, junk])
     = (Inr 3, \<lparr>pos = 7, toknext = 3, toksuper = -1\<rparr>,
        Some [\<lparr>tok_type = JSMN_OBJECT, tok_start = 0, tok_end = 7, tok_size = 1\<rparr>,
              \<lparr>tok_type = JSMN_STRING, tok_start = 2, tok_end = 3, tok_size = 1\<rparr>,
              \<lparr>tok_type = JSMN_PRIMITIVE, tok_start = 5, tok_end = 6, tok_size = 0\<rparr>, junk])"
    by code_simp
  have b: "int (length [junk, junk]) < 3" by simp
  from pool_too_small [of "''{\"a\":1}''" "[junk, junk, junk, junk]" "[junk, junk]",
      THEN conjunct1, rule_format, OF conjI, OF a b] a
  show ?thesis by simp
qed


text \<open>
  C2. From a fresh parser and with any pool of at least eight slots, the parse of
  \<^verbatim>\<open>{"a":[1,2,{"b":true}]}\<close> returns 8; the first token is an Object of size 1, the third
  an Array of size 3 and the sixth an Object of size 1.
\<close>

theorem nested_example_sizes:
  assumes "8 \<le> length ts"
  shows "\<exists>parser' ts'. jsmn_parse jsmn_init nested_example (Some ts) = (Inr 8, parser', Some ts')
     \<and> take 8 ts' = nested_tokens
     \<and> tok_type (ts' ! 0) = JSMN_OBJECT \<and> tok_size (ts' ! 0) = 1
     \<and> tok_type (ts' ! 2) = JSMN_ARRAY \<and> tok_size (ts' ! 2) = 3
     \<and> tok_type (ts' ! 5) = JSMN_OBJECT \<and> tok_size (ts' ! 5) = 1"
proof -
  have S: "jsmn_parse jsmn_init nested_example (Some (replicate 8 junk))
      = (Inr 8, \<lparr>pos = 22, toknext = 8, toksuper = -1\<rparr>, Some nested_tokens)"
    by code_simp
  have len: "length nested_tokens = 8" by (simp add: nested_tokens_def)
  from pool_sim_parse [OF S, of ts] assms
  obtain pL L' where L: "jsmn_parse jsmn_init nested_example (Some ts) = (Inr 8, pL, Some L')"
    and "take 8 nested_tokens = take 8 L'"
    by auto
  with len have t: "nested_tokens = take 8 L'" by simp
  have "L' ! i = nested_tokens ! i" if "i < 8" for i
    using that by (simp add: t)
  from this [of 0] this [of 2] this [of 5] L t show ?thesis
    by (simp add: nested_tokens_def)
qed

theorem nested_example_sizes_witness:
  "jsmn_parse jsmn_init nested_example (Some (replicate 9 junk))
     = (Inr 8, \<lparr>pos = 22, toknext = 8, toksuper = -1\<rparr>, Some (nested_tokens @ [junk]))"
proof -
  have "8 \<le> length (replicate 9 junk)" by simp
  from nested_example_sizes [OF this]
  obtain parser' ts' where "jsmn_parse jsmn_init nested_example (Some (replicate 9 junk)) = (Inr 8, parser', Some ts')"
    by blast
  moreover have "jsmn_parse jsmn_init nested_example (Some (replicate 9 junk))
     = (Inr 8, \<lparr>pos = 22, toknext = 8, toksuper = -1\<rparr>, Some (nested_tokens @ [junk]))"
    by code_simp
  ultimately show ?thesis by simp
qed


end
